theory Spec2Isabelle
  imports Main "HOL-Library.Word"
begin

unbundle bit_operations_syntax

section \<open>Common data\<close>

text \<open>
  FastLED's \<open>CRGB\<close> pixel: three 8-bit channels. Only plain assignment and the channel
  fields are used by the code modelled here.
\<close>

datatype crgb = CRGB (r: "8 word") (g: "8 word") (b: "8 word")

definition Black :: crgb where
  "Black = CRGB 0 0 0"

definition White :: crgb where
  "White = CRGB 255 255 255"

text \<open>
  A C array has a declared size; an access outside it is undefined behaviour. The model
  makes every such access a value of its own, carrying the offending index.
\<close>

datatype error = OutOfBounds int | IntOverflow

definition bind :: "error + 'a \<Rightarrow> ('a \<Rightarrow> error + 'b) \<Rightarrow> error + 'b" where
  "bind m f = (case m of Inl e \<Rightarrow> Inl e | Inr a \<Rightarrow> f a)"

text \<open>A counted \<open>for\<close> loop whose body may fail: the first failure ends the loop.\<close>

primrec for_each :: "'i list \<Rightarrow> ('i \<Rightarrow> 'a \<Rightarrow> error + 'a) \<Rightarrow> 'a \<Rightarrow> error + 'a" where
  "for_each [] f a = Inr a"
| "for_each (i # is) f a = (case f i a of Inl e \<Rightarrow> Inl e | Inr a' \<Rightarrow> for_each is f a')"

text \<open>\<open>xs[i] = v\<close> on an array indexed by a C \<open>int\<close>.\<close>

definition store :: "'a list \<Rightarrow> int \<Rightarrow> 'a \<Rightarrow> error + 'a list" where
  "store xs i v =
    (if 0 \<le> i \<and> i < int (length xs) then Inr (xs[nat i := v]) else Inl (OutOfBounds i))"


section \<open>Grid topology and index mapping (main.ino, example.ino, conway.ino)\<close>

text \<open>
  The sketches for the 980-LED staircase run on an ESP32, where \<open>int\<close> has 32 bits. In
  \<open>xyToIndex\<close> of main.ino every arithmetic operation comes after the range check, on
  values between 0 and 979, so HOL's \<open>int\<close> computes what the machine computes.
\<close>

definition NUM_LEDS :: int where
  "NUM_LEDS = 980"

definition STEP_COUNT :: int where
  "STEP_COUNT = 14"

definition MAX_LEDS_PER_STEP :: int where
  "MAX_LEDS_PER_STEP = 71"

definition LEDS_PER_STEP :: "int list" where
  "LEDS_PER_STEP = [64, 64, 71, 71, 71, 71, 71, 71, 71, 71, 71, 71, 71, 71]"

definition STEP_START :: "int list" where
  "STEP_START = [0, 64, 128, 199, 270, 341, 412, 483, 554, 625, 696, 767, 838, 909]"

text \<open>
  \<open>xyToIndex\<close> of main.ino (lines 72-88); example.ino, mvp.ino, matrix.ino and the other
  sketches carry the same text. Both table reads come after the range check on \<open>step\<close>.
\<close>

definition xyToIndex :: "int \<Rightarrow> int \<Rightarrow> int" where
  "xyToIndex step pos =
    (if step < 0 \<or> step \<ge> STEP_COUNT \<or> pos < 0 \<or> pos \<ge> MAX_LEDS_PER_STEP then NUM_LEDS
     else if step < 2 \<and> pos < 7 then NUM_LEDS
     else
       let adjustedPos = (if step < 2 then pos - 7 else pos);
           start = STEP_START ! nat step
       in if step AND 1 \<noteq> 0
          then start + (LEDS_PER_STEP ! nat step - 1 - adjustedPos)
          else start + adjustedPos)"

text \<open>\<open>isValidCell\<close> of conway.ino (lines 53-59): the valid, non-virtual addresses.\<close>

definition isValidCell :: "int \<Rightarrow> int \<Rightarrow> bool" where
  "isValidCell step pos =
    (if step < 0 \<or> step \<ge> STEP_COUNT then False
     else if pos < 0 \<or> pos \<ge> MAX_LEDS_PER_STEP then False
     else if step < 2 \<and> pos < 7 then False
     else True)"

text \<open>
  \<open>xyToIndex\<close> of conway.ino (lines 31-38) has no range check: \<open>step\<close> indexes the
  tables as it comes (a read outside them is \<open>OutOfBounds\<close>), and the 32-bit arithmetic of
  the branch that is taken can overflow for extreme \<open>pos\<close>. \<open>pos - 7\<close> is computed only
  for \<open>pos \<ge> 7\<close> and cannot.
\<close>

definition int32 :: "int \<Rightarrow> bool" where
  "int32 x = (- (2 ^ 31) \<le> x \<and> x < 2 ^ 31)"

definition xyToIndex_conway :: "int \<Rightarrow> int \<Rightarrow> error + int" where
  "xyToIndex_conway step pos =
    (if step < 2 \<and> pos < 7 then Inr NUM_LEDS
     else
       let adjustedPos = (if step < 2 then pos - 7 else pos)
       in if 0 \<le> step \<and> step < int (length STEP_START) then
            let start = STEP_START ! nat step
            in if step AND 1 \<noteq> 0 then
                 let back = LEDS_PER_STEP ! nat step - 1 - adjustedPos
                 in if int32 back \<and> int32 (start + back) then Inr (start + back)
                    else Inl IntOverflow
               else if int32 (start + adjustedPos) then Inr (start + adjustedPos)
                    else Inl IntOverflow
          else Inl (OutOfBounds step))"

text \<open>\<open>setLedSafe\<close> of main.ino (lines 93-97): the write happens only below \<open>NUM_LEDS\<close>.\<close>

definition setLedSafe :: "int \<Rightarrow> crgb \<Rightarrow> crgb list \<Rightarrow> error + crgb list" where
  "setLedSafe index color leds =
    (if index < NUM_LEDS then store leds index color else Inr leds)"

text \<open>\<open>lightStep\<close> of main.ino (lines 108-114), on the LED buffer.\<close>

definition lightStep :: "crgb \<Rightarrow> int \<Rightarrow> crgb list \<Rightarrow> error + crgb list" where
  "lightStep color step leds =
    for_each [0..MAX_LEDS_PER_STEP - 1]
      (\<lambda>pos leds. setLedSafe (xyToIndex step pos) color leds) leds"

text \<open>
  The sweeps of example.ino (lines 113-122 and 148-157) assign \<open>leds[index]\<close> with no test
  of \<open>index\<close>. The pauses between columns and rows do not touch the buffer.
\<close>

definition sweepLeftToRight :: "crgb \<Rightarrow> crgb list \<Rightarrow> error + crgb list" where
  "sweepLeftToRight animationColor leds =
    for_each [0..MAX_LEDS_PER_STEP - 1]
      (\<lambda>pos. for_each [0..STEP_COUNT - 1]
         (\<lambda>step leds. store leds (xyToIndex step pos) animationColor)) leds"

definition sweepTopToBottom :: "crgb \<Rightarrow> crgb list \<Rightarrow> error + crgb list" where
  "sweepTopToBottom animationColor leds =
    for_each [0..STEP_COUNT - 1]
      (\<lambda>step. for_each [0..MAX_LEDS_PER_STEP - 1]
         (\<lambda>pos leds. store leds (xyToIndex step pos) animationColor)) leds"



section \<open>Hold-then-fade brightness (mvp.ino)\<close>

text \<open>
  \<open>StepState\<close> and the timing macros of mvp.ino (lines 32-34 and 63-67). On the ESP32
  \<open>unsigned long\<close> has 32 bits.
\<close>

record StepState =
  turnOnTime :: "32 word"
  isActive :: bool

definition STEP_HOLD_MS :: "32 word" where
  "STEP_HOLD_MS = 1500"

definition STEP_FADE_MS :: "32 word" where
  "STEP_FADE_MS = 1000"

text \<open>
  \<open>calculateStepBrightness\<close> of mvp.ino (lines 125-150), with the two macros as
  parameters; the function of the source is the instance at the source's macros. The
  arithmetic is \<open>unsigned long\<close>, the result is cut to \<open>uint8_t\<close>.
\<close>

definition calculateStepBrightness_with ::
  "32 word \<Rightarrow> 32 word \<Rightarrow> StepState list \<Rightarrow> int \<Rightarrow> 32 word \<Rightarrow> error + 8 word" where
  "calculateStepBrightness_with hold fade stepStates step currentMs =
    (if 0 \<le> step \<and> step < int (length stepStates) then
       if \<not> isActive (stepStates ! nat step) then Inr 0
       else
         let elapsed = currentMs - turnOnTime (stepStates ! nat step) in
         if elapsed < hold then Inr 255
         else
           let fadeElapsed = elapsed - hold in
           if fadeElapsed < fade then Inr (ucast (255 - (fadeElapsed * 255) div fade))
           else Inr 0
     else Inl (OutOfBounds step))"

definition calculateStepBrightness ::
  "StepState list \<Rightarrow> int \<Rightarrow> 32 word \<Rightarrow> error + 8 word" where
  "calculateStepBrightness = calculateStepBrightness_with STEP_HOLD_MS STEP_FADE_MS"

text \<open>One step, switched on at time 0.\<close>

definition admitted_at_0 :: "StepState list" where
  "admitted_at_0 = [\<lparr>turnOnTime = 0, isActive = True\<rparr>]"

section \<open>The animation stack (the two-sensor sketch, src/unnamed/part_002)\<close>

text \<open>
  This sketch drives 14 steps of 3 LEDs each from an 8-bit Arduino: \<open>byte\<close> has 8 bits,
  \<open>unsigned int\<close> 16 and \<open>unsigned long\<close> 32. The macros and constants of lines 12-18, 66
  and 149; \<open>ANIMATION_RUNTIME\<close> is 34000, which fits its 16-bit type, and every
  comparison with it is made at 32 bits. \<open>LEDS_PER_STEP\<close> is 3 here (a table in the
  other sketches), hence the suffix.
\<close>

definition NUM_STEPS :: nat where
  "NUM_STEPS = 14"

definition LEDS_PER_STEP_strip :: nat where
  "LEDS_PER_STEP_strip = 3"

definition ANIMATION_STACK_SIZE_MAX :: nat where
  "ANIMATION_STACK_SIZE_MAX = 10"

definition MAX_SONAR_DISTANCE :: "8 word" where
  "MAX_SONAR_DISTANCE = 35"

definition WAIT_BETWEEN_TRIGGERS :: "32 word" where
  "WAIT_BETWEEN_TRIGGERS = 3000"

definition FRAME_DURATION_MAX :: "32 word" where
  "FRAME_DURATION_MAX = 1000 div 60"

definition ANIMATION_RUNTIME :: "32 word" where
  "ANIMATION_RUNTIME = 20000 + 14 * 1000"

text \<open>
  What the sketch takes from outside itself:
  \<^item> \<open>clock\<close>: the time in milliseconds since power-up at which the \<open>k\<close>-th call of
    \<open>millis()\<close> is made, as an unbounded number; \<open>millis()\<close> returns it modulo \<open>2^32\<close>;
  \<^item> \<open>curve\<close>: the brightness that line 172 computes in floating point from the
    instance's running time and the step number, \<open>255 * pow(1.5, -pow(..., 10))\<close> cut to
    \<open>unsigned long\<close>; it is left uninterpreted;
  \<^item> \<open>row_code\<close>: the pixel that line 211 stores, \<open>*animation_stack_steps[i] =
    &animation_stack_steps[i + 1]\<close>. The left side is the single pixel
    \<open>animation_stack_steps[i][0]\<close>; the right side is the address of row \<open>i + 1\<close>, which
    the permissive Arduino build converts to a colour code. The value depends on where the
    linker puts the array, so it is a parameter, indexed by the row.
\<close>

record platform =
  clock :: "nat \<Rightarrow> nat"
  curve :: "32 word \<Rightarrow> nat \<Rightarrow> 32 word"
  row_code :: "nat \<Rightarrow> crgb"

text \<open>
  The global variables of the sketch. \<open>animation_stack_steps\<close>, declared
  \<open>CRGB [ANIMATION_STACK_SIZE_MAX][NUM_STEPS]\<close>, is the flat list of its 140 pixels, row after
  row: \<open>animation_stack_steps[a][k]\<close> is element \<open>NUM_STEPS * a + k\<close>. \<open>millis_calls\<close>
  counts the calls of \<open>millis()\<close> made so far; the program cannot read it.
\<close>

record sched =
  animation_stack_start_times :: "32 word list"
  animation_stack_starting_point :: "bool list"
  animation_stack_steps :: "crgb list"
  animation_stack_size :: "8 word"
  last_trigger_time_top :: "32 word"
  last_trigger_time_bottom :: "32 word"
  frame_start_time :: "32 word"
  leds :: "crgb list"
  millis_calls :: nat

text \<open>\<open>millis()\<close>: the clock at this call, modulo \<open>2^32\<close>.\<close>

definition millis :: "platform \<Rightarrow> sched \<Rightarrow> 32 word \<times> sched" where
  "millis P s = (word_of_nat (clock P (millis_calls s)), s\<lparr>millis_calls := millis_calls s + 1\<rparr>)"

text \<open>
  \<open>enum starting_point {TOP, BOTTOM}\<close> (lines 83-86), passed to \<open>bool\<close> parameters:
  \<open>TOP\<close> is 0.
\<close>

definition TOP :: bool where
  "TOP = False"

definition BOTTOM :: bool where
  "BOTTOM = True"

text \<open>
  \<open>getDistance\<close> (lines 124-146), as a function of the echo time that \<open>pulseIn\<close>
  measured (0 on a timeout).
\<close>

definition getDistance :: "32 word \<Rightarrow> 8 word" where
  "getDistance duration =
    (let distance = (ucast (duration div 74 div 2) :: 8 word);
         distance = (if distance = 0 then MAX_SONAR_DISTANCE else distance);
         distance = (if distance > MAX_SONAR_DISTANCE then MAX_SONAR_DISTANCE else distance)
     in distance)"

text \<open>
  \<open>pushStack\<close> (lines 190-204). The two arrays have \<open>ANIMATION_STACK_SIZE_MAX\<close>
  elements; the function itself does not look at the size.
\<close>

definition pushStack :: "platform \<Rightarrow> bool \<Rightarrow> sched \<Rightarrow> error + sched" where
  "pushStack P starting_point s =
    (let (now, s) = millis P s;
         n = unat (animation_stack_size s)
     in if n < ANIMATION_STACK_SIZE_MAX then
          Inr (s\<lparr>animation_stack_start_times := (animation_stack_start_times s)[n := now],
                 animation_stack_starting_point :=
                   (animation_stack_starting_point s)[n := starting_point],
                 animation_stack_size := animation_stack_size s + 1\<rparr>)
        else Inl (OutOfBounds (int n)))"

text \<open>
  \<open>popStack\<close> (lines 207-223): start times and starting points move down by one; of the
  step colours only the first pixel of each row is written (line 211, see \<open>row_code\<close>).
  \<open>animation_stack_size--\<close> is on a \<open>byte\<close>.
\<close>

definition popStack :: "platform \<Rightarrow> sched \<Rightarrow> error + sched" where
  "popStack P s =
    bind (for_each [0..<unat (animation_stack_size s) - 1]
            (\<lambda>i s.
               if Suc i < ANIMATION_STACK_SIZE_MAX then
                 Inr (s\<lparr>animation_stack_start_times :=
                          (animation_stack_start_times s)[i := animation_stack_start_times s ! Suc i],
                        animation_stack_starting_point :=
                          (animation_stack_starting_point s)
                            [i := animation_stack_starting_point s ! Suc i],
                        animation_stack_steps :=
                          (animation_stack_steps s)[NUM_STEPS * i := row_code P (Suc i)]\<rparr>)
               else Inl (OutOfBounds (int (Suc i))))
            s)
      (\<lambda>s. Inr (s\<lparr>animation_stack_size := animation_stack_size s - 1\<rparr>))"

text \<open>
  \<open>sensorLoop\<close> (lines 99-117), given the two echo times of this pass. \<open>&&\<close> evaluates
  \<open>millis()\<close> only when the distance is in range.
\<close>

definition sensorLoop :: "platform \<Rightarrow> 32 word \<Rightarrow> 32 word \<Rightarrow> sched \<Rightarrow> error + sched" where
  "sensorLoop P echo_top echo_bottom s =
    (if unat (animation_stack_size s) < ANIMATION_STACK_SIZE_MAX then
       let distance_top = getDistance echo_top;
           distance_bottom = getDistance echo_bottom
       in bind
            (if distance_top < MAX_SONAR_DISTANCE then
               let (now, s) = millis P s in
               if now - last_trigger_time_top s > WAIT_BETWEEN_TRIGGERS then
                 let (now, s) = millis P s in
                 pushStack P TOP (s\<lparr>last_trigger_time_top := now\<rparr>)
               else Inr s
             else Inr s)
            (\<lambda>s.
               if distance_bottom < MAX_SONAR_DISTANCE then
                 let (now, s) = millis P s in
                 if now - last_trigger_time_bottom s > WAIT_BETWEEN_TRIGGERS then
                   let (now, s) = millis P s in
                   pushStack P BOTTOM (s\<lparr>last_trigger_time_bottom := now\<rparr>)
                 else Inr s
               else Inr s)
     else Inr s)"

text \<open>
  The \<open>while\<close> loop of \<open>animationLoop\<close> (lines 153-155): as long as the front instance
  has run longer than \<open>ANIMATION_RUNTIME\<close>, pop it. Each test reads the clock again. The
  loop ends because every pass shortens the stack.
\<close>

lemma for_each_mono:
  assumes "\<And>i a a'. f i a = Inr a' \<Longrightarrow> m a' = m a"
  shows "for_each xs f a = Inr a' \<Longrightarrow> m a' = m a"
proof (induction xs arbitrary: a)
  case Nil then show ?case by simp
next
  case (Cons i xs)
  then show ?case using assms by (auto split: sum.splits)
qed

lemma popStack_size:
  "popStack P s = Inr s' \<Longrightarrow> animation_stack_size s' = animation_stack_size s - 1"
  unfolding popStack_def bind_def
  by (auto split: sum.splits if_splits
      dest!: for_each_mono [where m = animation_stack_size, rotated])

function expire :: "platform \<Rightarrow> sched \<Rightarrow> error + sched" where
  "expire P s =
    (if animation_stack_size s > 0 then
       let (now, s1) = millis P s in
       if now - animation_stack_start_times s1 ! 0 > ANIMATION_RUNTIME then
         (case popStack P s1 of Inl e \<Rightarrow> Inl e | Inr s2 \<Rightarrow> expire P s2)
       else Inr s1
     else Inr s)"
  by pat_completeness auto
termination
proof (relation "measure (\<lambda>(P, s). unat (animation_stack_size s))")
  show "wf (measure (\<lambda>(P, s). unat (animation_stack_size s)))" by simp
next
  fix P s x now s1 s2
  assume a: "0 < animation_stack_size s" "x = millis P s" "(now, s1) = x"
    "popStack P s1 = Inr s2"
  have "animation_stack_size s1 = animation_stack_size s" using a(2,3) by (auto simp: millis_def)
  with popStack_size [OF a(4)] have "animation_stack_size s2 = animation_stack_size s - 1" by simp
  moreover have "unat (animation_stack_size s - 1) < unat (animation_stack_size s)"
    using a(1) by (simp add: unat_minus_one word_greater_zero_iff unat_gt_0)
  ultimately show "((P, s2), (P, s)) \<in> measure (\<lambda>(P, s). unat (animation_stack_size s))"
    by simp
qed

text \<open>
  \<open>animate\<close> (lines 165-187), called on the instance at stack index \<open>i\<close>:
  \<open>virtual_steps\<close> is row \<open>i\<close> of \<open>animation_stack_steps\<close>. For an instance started at
  the top \<open>led_index\<close> runs from 14 down to 1, so the write for \<open>i = 0\<close> of the loop
  lands on the first pixel of the next row, and for the last row past the array.
\<close>

definition animate :: "platform \<Rightarrow> nat \<Rightarrow> sched \<Rightarrow> error + sched" where
  "animate P i s =
    (if i < ANIMATION_STACK_SIZE_MAX then
       let start_time = animation_stack_start_times s ! i;
           starting_point = animation_stack_starting_point s ! i;
           (now, s) = millis P s;
           duration = now - start_time
       in for_each [0..<NUM_STEPS]
            (\<lambda>k s.
               let brightness = curve P duration k;
                   led_index = (if starting_point then k else NUM_STEPS - k);
                   idx = NUM_STEPS * i + led_index
               in if idx < NUM_STEPS * ANIMATION_STACK_SIZE_MAX then
                    Inr (s\<lparr>animation_stack_steps := (animation_stack_steps s)
                           [idx := CRGB (ucast brightness) (ucast brightness) (ucast brightness)]\<rparr>)
                  else Inl (OutOfBounds (int idx)))
            s
     else Inl (OutOfBounds (int i)))"

text \<open>\<open>animationLoop\<close> (lines 151-162).\<close>

definition animationLoop :: "platform \<Rightarrow> sched \<Rightarrow> error + sched" where
  "animationLoop P s =
    bind (expire P s)
      (\<lambda>s. for_each [0..<unat (animation_stack_size s)] (animate P) s)"

text \<open>
  \<open>displayLeds\<close> (lines 226-247). \<open>sat_sum\<close> is the statement pair
  \<open>sum = x + y; x = sum > 255 ? 255 : sum\<close>, the sum being an \<open>unsigned int\<close>.
\<close>

definition sat_sum :: "8 word \<Rightarrow> 8 word \<Rightarrow> 8 word" where
  "sat_sum x y = (let sum = (ucast x + ucast y :: 16 word) in if sum > 255 then 255 else ucast sum)"

definition displayLeds :: "sched \<Rightarrow> error + sched" where
  "displayLeds s =
    for_each [0..<NUM_STEPS]
      (\<lambda>step. for_each [0..<LEDS_PER_STEP_strip]
         (\<lambda>led_on_step s.
            let i = step * LEDS_PER_STEP_strip + led_on_step
            in for_each [0..<unat (animation_stack_size s)]
                 (\<lambda>animation s.
                    if animation < ANIMATION_STACK_SIZE_MAX then
                      let px = leds s ! i;
                          c = animation_stack_steps s ! (NUM_STEPS * animation + step)
                      in Inr (s\<lparr>leds := (leds s)
                                [i := CRGB (sat_sum (r px) (r c)) (sat_sum (g px) (g c))
                                        (sat_sum (b px) (b c))]\<rparr>)
                    else Inl (OutOfBounds (int animation)))
                 (s\<lparr>leds := (leds s)[i := CRGB 0 0 0]\<rparr>)))
      s"

text \<open>
  \<open>frameLimiter\<close> (lines 67-80). The result holds the argument of \<open>FastLED.delay\<close>, or
  \<open>None\<close> when it is not called.
\<close>

definition frameLimiter :: "platform \<Rightarrow> sched \<Rightarrow> 32 word option \<times> sched" where
  "frameLimiter P s =
    (let (now, s) = millis P s;
         frame_duration = now - frame_start_time s;
         delay = (if frame_duration < FRAME_DURATION_MAX
                  then Some (FRAME_DURATION_MAX - frame_duration) else None);
         (now, s) = millis P s
     in (delay, s\<lparr>frame_start_time := now\<rparr>))"

text \<open>\<open>loop\<close> (lines 57-62), given the two echo times of this pass.\<close>

definition loop :: "platform \<Rightarrow> 32 word \<times> 32 word \<Rightarrow> sched \<Rightarrow> error + sched" where
  "loop P echo s =
    bind (sensorLoop P (fst echo) (snd echo) s)
      (\<lambda>s. bind (animationLoop P s)
         (\<lambda>s. bind (displayLeds s)
            (\<lambda>s. Inr (snd (frameLimiter P s)))))"

text \<open>The state at power-up: C zeroes global variables.\<close>

definition boot :: sched where
  "boot = \<lparr>animation_stack_start_times = replicate ANIMATION_STACK_SIZE_MAX 0,
           animation_stack_starting_point = replicate ANIMATION_STACK_SIZE_MAX False,
           animation_stack_steps = replicate (ANIMATION_STACK_SIZE_MAX * NUM_STEPS) (CRGB 0 0 0),
           animation_stack_size = 0,
           last_trigger_time_top = 0,
           last_trigger_time_bottom = 0,
           frame_start_time = 0,
           leds = replicate (NUM_STEPS * LEDS_PER_STEP_strip) (CRGB 0 0 0),
           millis_calls = 0\<rparr>"

section \<open>Notions used in the statements\<close>

text \<open>The time that \<open>frameLimiter\<close> spends in \<open>FastLED.delay\<close>, in milliseconds.\<close>

primrec delay_ms :: "32 word option \<Rightarrow> int" where
  "delay_ms None = 0"
| "delay_ms (Some w) = uint w"

text \<open>One pass of the innermost loop of \<open>displayLeds\<close> (lines 236-241) on one pixel.\<close>

definition blend :: "crgb \<Rightarrow> crgb \<Rightarrow> crgb" where
  "blend px c = CRGB (sat_sum (r px) (r c)) (sat_sum (g px) (g c)) (sat_sum (b px) (b c))"

text \<open>The arrays have their declared lengths (lines 33 and 91-93).\<close>

definition sized :: "sched \<Rightarrow> bool" where
  "sized s \<longleftrightarrow>
     length (animation_stack_start_times s) = ANIMATION_STACK_SIZE_MAX \<and>
     length (animation_stack_starting_point s) = ANIMATION_STACK_SIZE_MAX \<and>
     length (animation_stack_steps s) = ANIMATION_STACK_SIZE_MAX * NUM_STEPS \<and>
     length (leds s) = NUM_STEPS * LEDS_PER_STEP_strip"

text \<open>
  What \<open>displayLeds\<close> computes for the LEDs of one step from the first \<open>n\<close> rows of
  \<open>animation_stack_steps\<close>, and the strip it leaves.
\<close>

definition mix :: "crgb list \<Rightarrow> nat \<Rightarrow> nat \<Rightarrow> crgb" where
  "mix S n step = foldl blend (CRGB 0 0 0) (map (\<lambda>a. S ! (NUM_STEPS * a + step)) [0..<n])"

definition paint :: "crgb list \<Rightarrow> nat \<Rightarrow> crgb list \<Rightarrow> crgb list" where
  "paint S n L =
     fold (\<lambda>step. fold (\<lambda>led L. L[LEDS_PER_STEP_strip * step + led := mix S n step])
        [0..<LEDS_PER_STEP_strip]) [0..<NUM_STEPS] L"


text \<open>
  The loops of \<open>popStack\<close> in closed form: \<open>shift\<close> for lines 209 and 210, \<open>recode\<close>
  for line 211.
\<close>

definition shift :: "nat \<Rightarrow> 'a list \<Rightarrow> 'a list" where
  "shift k xs = fold (\<lambda>i xs. xs[i := xs ! Suc i]) [0..<k] xs"

definition recode :: "platform \<Rightarrow> nat \<Rightarrow> crgb list \<Rightarrow> crgb list" where
  "recode P k S = fold (\<lambda>i S. S[NUM_STEPS * i := row_code P (Suc i)]) [0..<k] S"

text \<open>
  Two live instances: the older one started at 100 ms from the top, all its steps at
  \<open>(10, 10, 10)\<close>; the younger one at 200 ms from the bottom, all its steps at
  \<open>(20, 20, 20)\<close>.
\<close>

definition two_lit :: sched where
  "two_lit = boot\<lparr>animation_stack_start_times := [100, 200, 0, 0, 0, 0, 0, 0, 0, 0],
                  animation_stack_starting_point :=
                    [False, True, False, False, False, False, False, False, False, False],
                  animation_stack_steps :=
                    replicate 14 (CRGB 10 10 10) @ replicate 14 (CRGB 20 20 20) @
                    replicate 112 (CRGB 0 0 0),
                  animation_stack_size := 2\<rparr>"

text \<open>
  The states that the sketch reaches while every access stays inside its array: \<open>loop\<close>
  run again and again from power-up, with any echo times. A frame in which an access
  leaves an array (\<open>loop\<close> is \<open>Inl\<close>) has no successor in \<open>reach\<close>. The sketch itself does
  not stop there, but C gives it no defined behaviour from that access on, and what it does
  depends on what the linker has put next to the array; \<open>reach\<close> holds none of the states
  that follow, and a statement about every state of \<open>reach\<close> is a statement about the runs
  up to the first such access. Two accesses of this kind are within reach of the sensors:
  the second \<open>pushStack\<close> of a pass that began with nine instances, and \<open>animate\<close> on a
  tenth instance that started at the top.

  The comparisons of the sketch are on 32-bit differences of clock readings, which tell
  the real time only over less than \<open>2^32\<close> ms; the runs considered are those whose frames
  take at most \<open>FRAME_SPAN\<close> milliseconds each (12 days; a frame is meant to take 16 ms).
\<close>

definition FRAME_SPAN :: nat where
  "FRAME_SPAN = 2 ^ 30"

inductive reach :: "platform \<Rightarrow> sched \<Rightarrow> bool" for P :: platform where
  reach_boot: "reach P boot"
| reach_frame:
    "reach P s \<Longrightarrow> loop P echo s = Inr s' \<Longrightarrow>
     clock P (millis_calls s') \<le> clock P (millis_calls s) + FRAME_SPAN \<Longrightarrow> reach P s'"

text \<open>The frames that follow a state \<open>s\<close>, none or more, under the same conditions.\<close>

inductive frames :: "platform \<Rightarrow> sched \<Rightarrow> sched \<Rightarrow> bool" for P :: platform and s :: sched where
  frames_none: "frames P s s"
| frames_more:
    "frames P s s' \<Longrightarrow> loop P echo s' = Inr s'' \<Longrightarrow>
     clock P (millis_calls s'') \<le> clock P (millis_calls s') + FRAME_SPAN \<Longrightarrow> frames P s s''"

text \<open>
  The invariant of the stack. \<open>rs\<close> are the real times, not reduced modulo \<open>2^32\<close>,
  at which the live instances were pushed: they are sorted, the stored start times are
  their residues, none is in the future, and at call \<open>n0\<close> of the clock (the start of
  the frame) none was older than the runtime plus one frame.
\<close>

definition tracks :: "platform \<Rightarrow> nat \<Rightarrow> sched \<Rightarrow> nat list \<Rightarrow> bool" where
  "tracks P n0 s rs \<longleftrightarrow>
     sized s \<and> length rs = unat (animation_stack_size s) \<and> length rs \<le> ANIMATION_STACK_SIZE_MAX \<and>
     sorted rs \<and>
     (\<forall>i<length rs. animation_stack_start_times s ! i = word_of_nat (rs ! i)) \<and>
     (\<forall>x\<in>set rs. x \<le> clock P (millis_calls s)) \<and>
     (\<forall>x\<in>set rs. clock P n0 \<le> x + 34000 + FRAME_SPAN) \<and>
     n0 \<le> millis_calls s"

text \<open>The live instances, front first: start time and starting point.\<close>

definition live :: "sched \<Rightarrow> (32 word \<times> bool) list" where
  "live s = take (unat (animation_stack_size s))
              (zip (animation_stack_start_times s) (animation_stack_starting_point s))"

text \<open>
  Instances that were pushed between two readings of the clock: each has for start time
  the clock as \<open>millis()\<close> returned it at a call \<open>j\<close> with \<open>lo \<le> j < hi\<close>.
\<close>

definition pushed_since :: "platform \<Rightarrow> nat \<Rightarrow> nat \<Rightarrow> (32 word \<times> bool) list \<Rightarrow> bool" where
  "pushed_since P lo hi new \<longleftrightarrow>
     (\<forall>e\<in>set new. \<exists>j. lo \<le> j \<and> j < hi \<and> fst e = word_of_nat (clock P j))"

text \<open>
  The variables that decide which instances are live. \<open>ctl\<close> forgets the others (the
  colours, the strip and the start of the frame), \<open>stack_state\<close> builds such a state, and
  \<open>skeleton\<close> is \<open>loop\<close> on these variables alone: \<open>animate\<close>, \<open>displayLeds\<close> and
  \<open>frameLimiter\<close> read the clock once per live instance and twice more, and fail only
  when the tenth row is animated from the top.
\<close>

definition stack_of :: "sched \<Rightarrow> 32 word list \<times> bool list \<times> 8 word \<times> 32 word \<times> 32 word" where
  "stack_of s = (animation_stack_start_times s, animation_stack_starting_point s,
     animation_stack_size s, last_trigger_time_top s, last_trigger_time_bottom s)"

definition ctl :: "sched \<Rightarrow> sched" where
  "ctl s = s\<lparr>animation_stack_steps := [], leds := [], frame_start_time := 0\<rparr>"

definition stack_state ::
  "32 word list \<Rightarrow> bool list \<Rightarrow> 8 word \<Rightarrow> 32 word \<Rightarrow> 32 word \<Rightarrow> nat \<Rightarrow> sched" where
  "stack_state ts ps n lt lb k =
     \<lparr>animation_stack_start_times = ts, animation_stack_starting_point = ps,
      animation_stack_steps = [], animation_stack_size = n,
      last_trigger_time_top = lt, last_trigger_time_bottom = lb,
      frame_start_time = 0, leds = [], millis_calls = k\<rparr>"

definition skeleton :: "platform \<Rightarrow> 32 word \<times> 32 word \<Rightarrow> sched \<Rightarrow> error + sched" where
  "skeleton P echo c =
    bind (sensorLoop P (fst echo) (snd echo) c)
      (\<lambda>c. bind (expire P c)
         (\<lambda>c. if unat (animation_stack_size c) = ANIMATION_STACK_SIZE_MAX \<and>
                  \<not> animation_stack_starting_point c ! 9
               then Inl (OutOfBounds 140)
               else Inr (c\<lparr>millis_calls := millis_calls c + unat (animation_stack_size c) + 2\<rparr>)))"

text \<open>
  Three runs. In \<open>P5\<close> the clock stands at 3100 ms during the first frame and advances by
  3100 ms with every frame. In \<open>P10\<close> it stands at 0, \<open>2^30\<close>, \<open>2^31\<close> and
  \<open>3 * 2^30\<close> ms during four idle frames, at \<open>2^32 - 1000\<close> ms during the fifth,
  4500 ms later during the sixth and another 29600 ms later from then on. In \<open>P7\<close> it
  stands at 3100 ms during the first frame, at 37100 ms at the next reading and at
  37101 ms from then on.
\<close>

definition none10 :: "bool list" where
  "none10 = [False, False, False, False, False, False, False, False, False, False]"

definition P5 :: platform where
  "P5 = \<lparr>clock = (\<lambda>k. if k < 7 then 3100 else if k < 19 then 6200 else if k < 33 then 9300
                       else if k < 49 then 12400 else if k < 67 then 15500 else 18600),
         curve = (\<lambda>d k. 255), row_code = (\<lambda>i. CRGB 0 0 0)\<rparr>"

definition P10 :: platform where
  "P10 = \<lparr>clock = (\<lambda>k. if k < 2 then 0 else if k < 4 then 1073741824
                        else if k < 6 then 2147483648 else if k < 8 then 3221225472
                        else if k < 15 then 4294966296 else if k < 23 then 4294970796
                        else 4295000396),
          curve = (\<lambda>d k. 255), row_code = (\<lambda>i. CRGB 0 0 0)\<rparr>"

definition P7 :: platform where
  "P7 = \<lparr>clock = (\<lambda>k. if k < 7 then 3100 else if k < 8 then 37100 else 37101),
         curve = (\<lambda>d k. 255), row_code = (\<lambda>i. CRGB 0 0 0)\<rparr>"

section \<open>Index mapping: proofs\<close>

lemma isValidCell_iff:
  "isValidCell s p \<longleftrightarrow> 0 \<le> s \<and> s < 14 \<and> 0 \<le> p \<and> p < 71 \<and> \<not> (s < 2 \<and> p < 7)"
  by (simp add: isValidCell_def STEP_COUNT_def MAX_LEDS_PER_STEP_def)

lemma step_cases:
  "0 \<le> (s::int) \<Longrightarrow> s < 14 \<Longrightarrow> s \<in> {0, 1, 2, 3, 4, 5, 6, 7, 8, 9, 10, 11, 12, 13}"
  by simp arith

text \<open>The mapping in closed form, row by row.\<close>

lemma xyToIndex_closed:
  assumes "isValidCell s p"
  shows "xyToIndex s p =
     (if s = 0 then p - 7 else if s = 1 then 134 - p
      else if even s then 71 * s - 14 + p else 71 * s + 56 - p)"
proof -
  from assms have v: "0 \<le> s" "s < 14" "0 \<le> p" "p < 71" "\<not> (s < 2 \<and> p < 7)"
    by (simp_all add: isValidCell_iff)
  from v(1,2) have "s \<in> {0, 1, 2, 3, 4, 5, 6, 7, 8, 9, 10, 11, 12, 13}" by (rule step_cases)
  then show ?thesis using v(3,4,5)
    by (auto simp: xyToIndex_def STEP_COUNT_def MAX_LEDS_PER_STEP_def NUM_LEDS_def
        STEP_START_def LEDS_PER_STEP_def)
qed

text \<open>Each row owns its own interval of slots.\<close>

lemma xyToIndex_row:
  assumes "isValidCell s p"
  shows "(s = 0 \<and> 0 \<le> xyToIndex s p \<and> xyToIndex s p < 64) \<or>
         (s = 1 \<and> 64 \<le> xyToIndex s p \<and> xyToIndex s p < 128) \<or>
         (2 \<le> s \<and> 71 * s - 14 \<le> xyToIndex s p \<and> xyToIndex s p \<le> 71 * s + 56)"
proof -
  from assms have v: "0 \<le> s" "s < 14" "0 \<le> p" "p < 71" "\<not> (s < 2 \<and> p < 7)"
    by (simp_all add: isValidCell_iff)
  consider "s = 0" | "s = 1" | "2 \<le> s" "even s" | "2 \<le> s" "odd s" using v(1) by fastforce
  then show ?thesis unfolding xyToIndex_closed [OF assms]
    by cases (use v in simp_all)
qed

lemma xyToIndex_range:
  assumes "isValidCell s p"
  shows "0 \<le> xyToIndex s p \<and> xyToIndex s p < 980"
proof -
  from assms have "0 \<le> s" "s < 14" by (simp_all add: isValidCell_iff)
  then show ?thesis using xyToIndex_row [OF assms] by linarith
qed

lemma xyToIndex_inj:
  assumes v: "isValidCell s p" and v': "isValidCell s' p'"
    and eq: "xyToIndex s p = xyToIndex s' p'"
  shows "s = s' \<and> p = p'"
proof -
  have s: "s = s'" using xyToIndex_row [OF v] xyToIndex_row [OF v'] eq by linarith
  have "xyToIndex s p = xyToIndex s p'" using eq s by simp
  then have "p = p'"
    unfolding xyToIndex_closed [OF v] xyToIndex_closed [OF v' [folded s]]
    by (simp split: if_splits)
  with s show ?thesis by simp
qed

lemma xyToIndex_surj:
  assumes "0 \<le> y" "y < 980"
  shows "\<exists>s p. isValidCell s p \<and> xyToIndex s p = y"
proof -
  consider "y < 64" | "64 \<le> y" "y < 128" | "128 \<le> y" by linarith
  then show ?thesis
  proof cases
    case 1
    have v: "isValidCell 0 (y + 7)" using assms 1 by (simp add: isValidCell_iff)
    show ?thesis using xyToIndex_closed [OF v] v
      by (intro exI [of _ 0] exI [of _ "y + 7"]) simp
  next
    case 2
    have v: "isValidCell 1 (134 - y)" using assms 2 by (simp add: isValidCell_iff)
    show ?thesis using xyToIndex_closed [OF v] v
      by (intro exI [of _ 1] exI [of _ "134 - y"]) simp
  next
    case 3
    define s where "s = (y + 14) div 71"
    have dm: "71 * s + (y + 14) mod 71 = y + 14"
      unfolding s_def by (rule mult_div_mod_eq)
    have m: "0 \<le> (y + 14) mod 71" "(y + 14) mod 71 < 71" by simp_all
    have s: "2 \<le> s" "s < 14" "71 * s \<le> y + 14" "y + 14 < 71 * s + 71"
      using assms 3 dm m by linarith+
    define p where "p = (if even s then y + 14 - 71 * s else 71 * s + 56 - y)"
    have pb: "0 \<le> p" "p < 71" using s unfolding p_def by auto
    have v: "isValidCell s p" using s pb by (simp add: isValidCell_iff)
    have "xyToIndex s p = y" unfolding xyToIndex_closed [OF v] using s by (auto simp: p_def)
    then show ?thesis using v by blast
  qed
qed

text \<open>
  C1. For the configured 14-step topology, \<open>xyToIndex\<close> restricted to the valid,
  non-virtual addresses (\<open>0 \<le> step < 14\<close>, \<open>0 \<le> pos < 71\<close>, not \<open>step < 2\<close> and
  \<open>pos < 7\<close>) is injective, and its results are exactly the slots \<open>0, \<dots>, 979\<close>.
\<close>

theorem xyToIndex_bijection:
  "bij_betw (\<lambda>(step, pos). xyToIndex step pos)
     {(step, pos). isValidCell step pos} {0..<NUM_LEDS}"
  unfolding bij_betw_def
proof
  show "inj_on (\<lambda>(step, pos). xyToIndex step pos) {(step, pos). isValidCell step pos}"
    by (rule inj_onI) (auto dest: xyToIndex_inj)
  show "(\<lambda>(step, pos). xyToIndex step pos) ` {(step, pos). isValidCell step pos}
        = {0..<NUM_LEDS}"
  proof (rule set_eqI, rule iffI)
    fix y
    assume "y \<in> (\<lambda>(step, pos). xyToIndex step pos) ` {(step, pos). isValidCell step pos}"
    then show "y \<in> {0..<NUM_LEDS}" using xyToIndex_range by (auto simp: NUM_LEDS_def)
  next
    fix y
    assume "y \<in> {0..<NUM_LEDS}"
    then have "0 \<le> y" "y < 980" by (simp_all add: NUM_LEDS_def)
    from xyToIndex_surj [OF this] obtain s p where "isValidCell s p" "xyToIndex s p = y"
      by blast
    then show "y \<in> (\<lambda>(step, pos). xyToIndex step pos) ` {(step, pos). isValidCell step pos}"
      by force
  qed
qed

text \<open>
  The theorem at work: the last cell of row 1 and the first real cell of row 0 are valid,
  so they get different slots, and slot 979 is the image of a valid cell.
\<close>

theorem xyToIndex_bijection_witness:
  "isValidCell 0 7 \<and> isValidCell 1 70 \<and> xyToIndex 0 7 \<noteq> xyToIndex 1 70 \<and>
   979 \<in> (\<lambda>(step, pos). xyToIndex step pos) ` {(step, pos). isValidCell step pos}"
proof -
  have v: "isValidCell 0 7" "isValidCell 1 70" by (simp_all add: isValidCell_iff)
  have i: "inj_on (\<lambda>(step, pos). xyToIndex step pos) {(step, pos). isValidCell step pos}"
    and e: "(\<lambda>(step, pos). xyToIndex step pos) ` {(step, pos). isValidCell step pos}
        = {0..<NUM_LEDS}"
    using xyToIndex_bijection by (simp_all add: bij_betw_def)
  have "xyToIndex 0 7 \<noteq> xyToIndex 1 70"
  proof
    assume "xyToIndex 0 7 = xyToIndex 1 70"
    then have "((0::int), (7::int)) = (1, 70)"
      using v by (intro inj_onD [OF i]) simp_all
    then show False by simp
  qed
  moreover have "979 \<in> {0..<NUM_LEDS}" by (simp add: NUM_LEDS_def)
  ultimately show ?thesis using v e by simp
qed

text \<open>Whatever the arguments, the result of \<open>xyToIndex\<close> is a slot or \<open>NUM_LEDS\<close>.\<close>

lemma xyToIndex_bounds: "0 \<le> xyToIndex s p \<and> xyToIndex s p \<le> NUM_LEDS"
proof (cases "isValidCell s p")
  case True
  then show ?thesis using xyToIndex_range [of s p] by (simp add: NUM_LEDS_def)
next
  case False
  then have "xyToIndex s p = NUM_LEDS"
    by (auto simp: isValidCell_iff xyToIndex_def STEP_COUNT_def MAX_LEDS_PER_STEP_def)
  then show ?thesis by (simp add: NUM_LEDS_def)
qed

text \<open>On a valid cell the two functions agree, and \<open>conway.ino\<close>'s reads its tables in range.\<close>

lemma xyToIndex_conway_valid:
  assumes "isValidCell s p"
  shows "xyToIndex_conway s p = Inr (xyToIndex s p)"
proof -
  from assms have v: "0 \<le> s" "s < 14" "0 \<le> p" "p < 71" "\<not> (s < 2 \<and> p < 7)"
    by (simp_all add: isValidCell_iff)
  from v(1,2) have "s \<in> {0, 1, 2, 3, 4, 5, 6, 7, 8, 9, 10, 11, 12, 13}" by (rule step_cases)
  then show ?thesis using v(3,4,5)
    by (elim insertE emptyE;
        simp add: xyToIndex_conway_def xyToIndex_def STEP_COUNT_def MAX_LEDS_PER_STEP_def
        NUM_LEDS_def STEP_START_def LEDS_PER_STEP_def int32_def Let_def)
qed

text \<open>
  C2. \<open>xyToIndex\<close> of \<open>main.ino\<close> returns \<open>NUM_LEDS\<close> for every \<open>(step, pos)\<close> with
  \<open>step\<close> out of range, \<open>pos\<close> out of range, or \<open>pos\<close> inside the virtual prefix of
  rows 0 and 1; being a total function into the integers it raises nothing. The function
  of the same name in \<open>conway.ino\<close> returns \<open>NUM_LEDS\<close> inside the virtual prefix and agrees
  with the first on every valid cell; on the other inputs it is the next statement that
  says what happens.
\<close>

theorem xyToIndex_fails_closed:
  "(step < 0 \<or> step \<ge> STEP_COUNT \<or> pos < 0 \<or> pos \<ge> MAX_LEDS_PER_STEP \<or> (step < 2 \<and> pos < 7)
      \<longrightarrow> xyToIndex step pos = NUM_LEDS) \<and>
   (step < 2 \<and> pos < 7 \<longrightarrow> xyToIndex_conway step pos = Inr NUM_LEDS) \<and>
   (isValidCell step pos \<longrightarrow> xyToIndex_conway step pos = Inr (xyToIndex step pos))"
proof (intro conjI impI)
  assume "step < 0 \<or> step \<ge> STEP_COUNT \<or> pos < 0 \<or> pos \<ge> MAX_LEDS_PER_STEP \<or> (step < 2 \<and> pos < 7)"
  then show "xyToIndex step pos = NUM_LEDS" by (auto simp: xyToIndex_def)
next
  assume "step < 2 \<and> pos < 7"
  then show "xyToIndex_conway step pos = Inr NUM_LEDS" by (simp add: xyToIndex_conway_def)
next
  assume "isValidCell step pos"
  then show "xyToIndex_conway step pos = Inr (xyToIndex step pos)"
    by (rule xyToIndex_conway_valid)
qed

text \<open>
  The theorem at the inputs \<open>(14, 0)\<close>, \<open>(0, 71)\<close>, \<open>(-1, 3)\<close>, \<open>(1, 6)\<close> and
  \<open>(3, 0)\<close>.
\<close>

theorem xyToIndex_fails_closed_witness:
  "xyToIndex 14 0 = NUM_LEDS \<and> xyToIndex 0 71 = NUM_LEDS \<and> xyToIndex (- 1) 3 = NUM_LEDS \<and>
   xyToIndex 1 6 = NUM_LEDS \<and> xyToIndex_conway 1 6 = Inr NUM_LEDS \<and>
   isValidCell 3 0 \<and> xyToIndex_conway 3 0 = Inr (xyToIndex 3 0)"
  using xyToIndex_fails_closed [of 14 0] xyToIndex_fails_closed [of 0 71]
    xyToIndex_fails_closed [of "- 1" 3] xyToIndex_fails_closed [of 1 6]
    xyToIndex_fails_closed [of 3 0]
  by (simp add: STEP_COUNT_def MAX_LEDS_PER_STEP_def isValidCell_iff)

text \<open>
  In \<open>conway.ino\<close> the function has no range check: for \<open>pos = 71\<close> on row 0 it returns
  slot 64, which is the first slot of row 1, and for \<open>step = 14\<close> it reads
  \<open>STEP_START[14]\<close>, past the table.
\<close>

theorem xyToIndex_conway_counterexample:
  "xyToIndex_conway 0 71 = Inr 64 \<and> (0::int) \<le> 64 \<and> 64 < NUM_LEDS \<and>
   xyToIndex_conway 14 0 = Inl (OutOfBounds 14)"
  by (simp add: xyToIndex_conway_def STEP_START_def LEDS_PER_STEP_def NUM_LEDS_def int32_def)

section \<open>Writes to the LED buffer: proofs\<close>

lemma store_ok: "0 \<le> i \<Longrightarrow> i < int (length xs) \<Longrightarrow> store xs i v = Inr (xs[nat i := v])"
  by (simp add: store_def)

lemma setLedSafe_in_bounds:
  assumes "length buf = 980"
  shows "\<exists>buf'. setLedSafe (xyToIndex step pos) color buf = Inr buf' \<and> length buf' = 980"
  using assms xyToIndex_bounds [of step pos]
  by (auto simp: setLedSafe_def store_def NUM_LEDS_def)

lemma for_each_invariant:
  assumes "P a" and "\<And>i a. i \<in> set xs \<Longrightarrow> P a \<Longrightarrow> \<exists>a'. f i a = Inr a' \<and> P a'"
  shows "\<exists>a'. for_each xs f a = Inr a' \<and> P a'"
  using assms
proof (induction xs arbitrary: a)
  case Nil
  then show ?case by simp
next
  case (Cons i xs)
  from Cons.prems obtain a1 where a1: "f i a = Inr a1" "P a1" by (meson list.set_intros(1))
  from Cons.IH [OF a1(2)] Cons.prems(2) obtain a' where "for_each xs f a1 = Inr a'" "P a'"
    by (meson list.set_intros(2))
  with a1 show ?case by simp
qed

text \<open>\<open>lightStep\<close> of \<open>main.ino\<close> writes through \<open>setLedSafe\<close> and stays inside the buffer.\<close>

lemma lightStep_in_bounds:
  assumes "length buf = 980"
  shows "\<exists>buf'. lightStep color step buf = Inr buf' \<and> length buf' = 980"
  unfolding lightStep_def
  by (rule for_each_invariant [where P = "\<lambda>l. length l = 980"])
     (use assms setLedSafe_in_bounds in auto)

lemma for_each_first_fails:
  "f i a = Inl e \<Longrightarrow> for_each (i # xs) f a = Inl e"
  by simp

text \<open>
  C8. Every write of an animation routine to the LED buffer is at an index below
  \<open>NUM_LEDS\<close>, an address mapped to \<open>NUM_LEDS\<close> being discarded. The two sweeps of
  \<open>example.ino\<close> do not discard it: their first cell is \<open>(0, 0)\<close>, which is virtual,
  \<open>xyToIndex\<close> returns \<open>NUM_LEDS\<close> for it, and the sweep assigns \<open>leds[NUM_LEDS]\<close>, the
  element after the last one of the buffer.
\<close>

theorem sweep_writes_past_buffer:
  "xyToIndex 0 0 = NUM_LEDS \<and>
   sweepLeftToRight White (replicate 980 Black) = Inl (OutOfBounds 980) \<and>
   sweepTopToBottom White (replicate 980 Black) = Inl (OutOfBounds 980)"
proof -
  have x: "xyToIndex 0 0 = 980"
    by (simp add: xyToIndex_def STEP_COUNT_def MAX_LEDS_PER_STEP_def NUM_LEDS_def)
  have s: "store (replicate 980 Black) 980 White = Inl (OutOfBounds 980)"
    by (simp add: store_def)
  have rows: "[0..STEP_COUNT - 1] = 0 # [1..13]"
    by (simp add: STEP_COUNT_def upto_rec1)
  have cols: "[0..MAX_LEDS_PER_STEP - 1] = 0 # [1..70]"
    by (simp add: MAX_LEDS_PER_STEP_def upto_rec1)
  show ?thesis
    by (simp add: sweepLeftToRight_def sweepTopToBottom_def rows cols s x NUM_LEDS_def)
qed

section \<open>Hold, then fade: proofs\<close>

text \<open>
  C4. An instance started at time 0 holds full brightness for 2000 ms, fades to 0 over
  the next 3000 ms and is dark afterwards: 255 at 1000 ms, about half at 3500 ms, 0 at
  5001 ms. The function as compiled holds for 1500 ms and fades for 1000 ms: it is at
  half brightness at 2000 ms already and at 0 from 2500 ms on, so at 3500 ms too.
\<close>

theorem calculateStepBrightness_timing:
  "calculateStepBrightness admitted_at_0 0 1000 = Inr 255 \<and>
   calculateStepBrightness admitted_at_0 0 1500 = Inr 255 \<and>
   calculateStepBrightness admitted_at_0 0 2000 = Inr 128 \<and>
   calculateStepBrightness admitted_at_0 0 2500 = Inr 0 \<and>
   calculateStepBrightness admitted_at_0 0 3500 = Inr 0 \<and>
   calculateStepBrightness admitted_at_0 0 5001 = Inr 0"
  by (simp add: calculateStepBrightness_def calculateStepBrightness_with_def admitted_at_0_def
      STEP_HOLD_MS_def STEP_FADE_MS_def)

text \<open>
  With the durations that the comments of \<open>mvp.ino\<close> give (2 seconds on, 3 seconds to fade
  off) the same function has the three values of the claim.
\<close>

lemma documented_timing:
  "calculateStepBrightness_with 2000 3000 admitted_at_0 0 1000 = Inr 255 \<and>
   calculateStepBrightness_with 2000 3000 admitted_at_0 0 3500 = Inr 128 \<and>
   calculateStepBrightness_with 2000 3000 admitted_at_0 0 5001 = Inr 0"
  by (simp add: calculateStepBrightness_with_def admitted_at_0_def)

section \<open>Frame limiter and compositor: proofs\<close>

lemma FRAME_DURATION_MAX_16: "FRAME_DURATION_MAX = 16"
  by (simp add: FRAME_DURATION_MAX_def)

text \<open>
  C9. After a cycle that took \<open>d\<close> milliseconds, \<open>d\<close> being the clock now minus
  \<open>frame_start_time\<close> on 32 bits, \<open>frameLimiter\<close> delays for
  \<open>max (FRAME_DURATION_MAX - d) 0\<close> milliseconds: it calls \<open>FastLED.delay\<close> with what is
  left of the 16 ms when \<open>d < FRAME_DURATION_MAX\<close> and does not call it otherwise. In both
  cases the next frame starts at a fresh reading of the clock, so that an overrun is
  neither made up for nor answered by skipping a frame.
\<close>

theorem frameLimiter_delay:
  "delay_ms (fst (frameLimiter P s)) =
     max (uint FRAME_DURATION_MAX
          - uint (word_of_nat (clock P (millis_calls s)) - frame_start_time s :: 32 word)) 0 \<and>
   (fst (frameLimiter P s) = None \<longleftrightarrow>
      FRAME_DURATION_MAX \<le> word_of_nat (clock P (millis_calls s)) - frame_start_time s) \<and>
   frame_start_time (snd (frameLimiter P s)) = word_of_nat (clock P (millis_calls s + 1)) \<and>
   millis_calls (snd (frameLimiter P s)) = millis_calls s + 2"
  by (auto simp: frameLimiter_def millis_def Let_def split_def word_less_def word_le_def
      uint_sub_if' not_less)


lemma blend_sel [simp]:
  "r (blend px c) = sat_sum (r px) (r c)"
  "g (blend px c) = sat_sum (g px) (g c)"
  "b (blend px c) = sat_sum (b px) (b c)"
  by (simp_all add: blend_def)

lemma min_255_add: "min (255::nat) (min 255 x + y) = min 255 (x + y)"
  by simp




lemma for_each_append:
  "for_each (xs @ ys) f a = bind (for_each xs f a) (for_each ys f)"
  by (induction xs arbitrary: a) (auto simp: bind_def split: sum.splits)

lemma for_each_fold:
  assumes "I a"
    and "\<And>i a. i \<in> set xs \<Longrightarrow> I a \<Longrightarrow> f i a = Inr (u i a) \<and> I (u i a)"
  shows "for_each xs f a = Inr (fold u xs a) \<and> I (fold u xs a)"
  using assms
proof (induction xs arbitrary: a)
  case Nil
  then show ?case by simp
next
  case (Cons i xs)
  from Cons.prems have 1: "f i a = Inr (u i a)" "I (u i a)" by simp_all
  have "for_each xs f (u i a) = Inr (fold u xs (u i a)) \<and> I (fold u xs (u i a))"
    by (rule Cons.IH [OF 1(2)]) (simp add: Cons.prems(2))
  with 1 show ?case by simp
qed

lemma fold_blend:
  assumes "i < length (leds s0)"
  shows "fold (\<lambda>a s. s\<lparr>leds := (leds s)
            [i := blend (leds s ! i) (animation_stack_steps s ! (k a))]\<rparr>) xs s0 =
         s0\<lparr>leds := (leds s0)
            [i := foldl blend (leds s0 ! i) (map (\<lambda>a. animation_stack_steps s0 ! (k a)) xs)]\<rparr>"
  using assms
proof (induction xs arbitrary: s0)
  case Nil
  then show ?case by simp
next
  case (Cons a xs)
  then show ?case by simp
qed

text \<open>One slot: black, then one saturating addition per live instance.\<close>

lemma slot_loop:
  assumes n: "unat (animation_stack_size s) \<le> ANIMATION_STACK_SIZE_MAX"
    and i: "i < length (leds s)"
  shows "for_each [0..<unat (animation_stack_size s)]
           (\<lambda>animation s.
              if animation < ANIMATION_STACK_SIZE_MAX then
                let px = leds s ! i;
                    c = animation_stack_steps s ! (NUM_STEPS * animation + step)
                in Inr (s\<lparr>leds := (leds s)
                          [i := CRGB (sat_sum (r px) (r c)) (sat_sum (g px) (g c))
                                  (sat_sum (b px) (b c))]\<rparr>)
              else Inl (OutOfBounds (int animation)))
           (s\<lparr>leds := (leds s)[i := CRGB 0 0 0]\<rparr>)
         = Inr (s\<lparr>leds := (leds s)
                  [i := mix (animation_stack_steps s) (unat (animation_stack_size s)) step]\<rparr>)"
proof -
  let ?f = "\<lambda>animation s.
              if animation < ANIMATION_STACK_SIZE_MAX then
                let px = leds s ! i;
                    c = animation_stack_steps s ! (NUM_STEPS * animation + step)
                in Inr (s\<lparr>leds := (leds s)
                          [i := CRGB (sat_sum (r px) (r c)) (sat_sum (g px) (g c))
                                  (sat_sum (b px) (b c))]\<rparr>)
              else Inl (OutOfBounds (int animation))"
  let ?u = "\<lambda>a s. s\<lparr>leds := (leds s)
            [i := blend (leds s ! i) (animation_stack_steps s ! (NUM_STEPS * a + step))]\<rparr>"
  let ?s0 = "s\<lparr>leds := (leds s)[i := CRGB 0 0 0]\<rparr>"
  have "for_each [0..<unat (animation_stack_size s)] ?f ?s0
        = Inr (fold ?u [0..<unat (animation_stack_size s)] ?s0) \<and> True"
    by (rule for_each_fold [where I = "\<lambda>_. True"]) (use n in \<open>auto simp: blend_def Let_def\<close>)
  moreover have "fold ?u [0..<unat (animation_stack_size s)] ?s0 =
      ?s0\<lparr>leds := (leds ?s0)[i := foldl blend (leds ?s0 ! i)
          (map (\<lambda>a. animation_stack_steps ?s0 ! (NUM_STEPS * a + step))
             [0..<unat (animation_stack_size s)])]\<rparr>"
    by (rule fold_blend) (use i in simp)
  ultimately show ?thesis using i by (simp add: mix_def)
qed


lemma leds_fold_update:
  "leds (fold (\<lambda>x s. s\<lparr>leds := (leds s)[p x := v x]\<rparr>) xs s) =
   fold (\<lambda>x L. L[p x := v x]) xs (leds s)"
  by (induction xs arbitrary: s) simp_all

lemma length_paint_row [simp]:
  "length (fold (\<lambda>led L. L[base + led := v]) xs L) = length L"
  by (induction xs arbitrary: L) simp_all

lemma length_paint_rows [simp]:
  "length (fold (\<lambda>step. fold (\<lambda>led L. L[w * step + led := v step]) [0..<w]) xs L) = length L"
  by (induction xs arbitrary: L) simp_all




lemma fold_leds:
  "fold (\<lambda>x s. s\<lparr>leds := F x (leds s)\<rparr>) xs s = s\<lparr>leds := fold F xs (leds s)\<rparr>"
  by (induction xs arbitrary: s) simp_all

lemma displayLeds_paint:
  assumes w: "sized s" and n: "unat (animation_stack_size s) \<le> ANIMATION_STACK_SIZE_MAX"
  shows "displayLeds s =
     Inr (s\<lparr>leds := paint (animation_stack_steps s) (unat (animation_stack_size s)) (leds s)\<rparr>)"
proof -
  define S where "S = animation_stack_steps s"
  define m where "m = animation_stack_size s"
  define I where "I = (\<lambda>a::sched. animation_stack_steps a = S \<and> animation_stack_size a = m \<and>
     length (leds a) = NUM_STEPS * LEDS_PER_STEP_strip)"
  define row where "row = (\<lambda>step. fold (\<lambda>led L. L[LEDS_PER_STEP_strip * step + led := mix S (unat m) step])
        [0..<LEDS_PER_STEP_strip])"
  have I0: "I s" using w by (simp add: I_def S_def m_def sized_def)
  have inner: "for_each [0..<LEDS_PER_STEP_strip]
         (\<lambda>led_on_step s.
            let i = step * LEDS_PER_STEP_strip + led_on_step
            in for_each [0..<unat (animation_stack_size s)]
                 (\<lambda>animation s.
                    if animation < ANIMATION_STACK_SIZE_MAX then
                      let px = leds s ! i;
                          c = animation_stack_steps s ! (NUM_STEPS * animation + step)
                      in Inr (s\<lparr>leds := (leds s)
                                [i := CRGB (sat_sum (r px) (r c)) (sat_sum (g px) (g c))
                                        (sat_sum (b px) (b c))]\<rparr>)
                    else Inl (OutOfBounds (int animation)))
                 (s\<lparr>leds := (leds s)[i := CRGB 0 0 0]\<rparr>)) a
      = Inr (a\<lparr>leds := row step (leds a)\<rparr>) \<and> I (a\<lparr>leds := row step (leds a)\<rparr>)"
    if a: "I a" and step: "step \<in> set [0..<NUM_STEPS]" for a step
  proof -
    let ?u = "\<lambda>led a. a\<lparr>leds := (leds a)
        [LEDS_PER_STEP_strip * step + led := mix S (unat m) step]\<rparr>"
    have "for_each [0..<LEDS_PER_STEP_strip]
         (\<lambda>led_on_step s.
            let i = step * LEDS_PER_STEP_strip + led_on_step
            in for_each [0..<unat (animation_stack_size s)]
                 (\<lambda>animation s.
                    if animation < ANIMATION_STACK_SIZE_MAX then
                      let px = leds s ! i;
                          c = animation_stack_steps s ! (NUM_STEPS * animation + step)
                      in Inr (s\<lparr>leds := (leds s)
                                [i := CRGB (sat_sum (r px) (r c)) (sat_sum (g px) (g c))
                                        (sat_sum (b px) (b c))]\<rparr>)
                    else Inl (OutOfBounds (int animation)))
                 (s\<lparr>leds := (leds s)[i := CRGB 0 0 0]\<rparr>)) a
       = Inr (fold ?u [0..<LEDS_PER_STEP_strip] a) \<and> I (fold ?u [0..<LEDS_PER_STEP_strip] a)"
    proof (rule for_each_fold [where I = I, OF a])
      fix led a'
      assume led: "led \<in> set [0..<LEDS_PER_STEP_strip]" and a': "I a'"
      have i: "step * LEDS_PER_STEP_strip + led < length (leds a')"
        using led step a' by (simp add: I_def NUM_STEPS_def LEDS_PER_STEP_strip_def)
      have n': "unat (animation_stack_size a') \<le> ANIMATION_STACK_SIZE_MAX"
        using a' n by (simp add: I_def m_def)
      show "(let i = step * LEDS_PER_STEP_strip + led
            in for_each [0..<unat (animation_stack_size a')]
                 (\<lambda>animation s.
                    if animation < ANIMATION_STACK_SIZE_MAX then
                      let px = leds s ! i;
                          c = animation_stack_steps s ! (NUM_STEPS * animation + step)
                      in Inr (s\<lparr>leds := (leds s)
                                [i := CRGB (sat_sum (r px) (r c)) (sat_sum (g px) (g c))
                                        (sat_sum (b px) (b c))]\<rparr>)
                    else Inl (OutOfBounds (int animation)))
                 (a'\<lparr>leds := (leds a')[i := CRGB 0 0 0]\<rparr>)) = Inr (?u led a') \<and> I (?u led a')"
        unfolding Let_def [of "step * LEDS_PER_STEP_strip + led"] slot_loop [OF n' i]
        using a' by (simp add: I_def mult.commute)
    qed
    then show ?thesis
      by (simp add: row_def
          fold_leds [of "\<lambda>led L. L[LEDS_PER_STEP_strip * step + led := mix S (unat m) step]"])
  qed
  have "for_each [0..<NUM_STEPS]
      (\<lambda>step. for_each [0..<LEDS_PER_STEP_strip]
         (\<lambda>led_on_step s.
            let i = step * LEDS_PER_STEP_strip + led_on_step
            in for_each [0..<unat (animation_stack_size s)]
                 (\<lambda>animation s.
                    if animation < ANIMATION_STACK_SIZE_MAX then
                      let px = leds s ! i;
                          c = animation_stack_steps s ! (NUM_STEPS * animation + step)
                      in Inr (s\<lparr>leds := (leds s)
                                [i := CRGB (sat_sum (r px) (r c)) (sat_sum (g px) (g c))
                                        (sat_sum (b px) (b c))]\<rparr>)
                    else Inl (OutOfBounds (int animation)))
                 (s\<lparr>leds := (leds s)[i := CRGB 0 0 0]\<rparr>))) s
     = Inr (fold (\<lambda>step a. a\<lparr>leds := row step (leds a)\<rparr>) [0..<NUM_STEPS] s) \<and>
       I (fold (\<lambda>step a. a\<lparr>leds := row step (leds a)\<rparr>) [0..<NUM_STEPS] s)"
    by (rule for_each_fold [where I = I, OF I0]) (rule inner)
  then have "displayLeds s = Inr (fold (\<lambda>step a. a\<lparr>leds := row step (leds a)\<rparr>) [0..<NUM_STEPS] s)"
    unfolding displayLeds_def by (rule conjunct1)
  also have "fold (\<lambda>step a. a\<lparr>leds := row step (leds a)\<rparr>) [0..<NUM_STEPS] s =
      s\<lparr>leds := fold row [0..<NUM_STEPS] (leds s)\<rparr>"
    by (rule fold_leds)
  also have "fold row [0..<NUM_STEPS] (leds s) = paint S (unat m) (leds s)"
    by (simp add: paint_def row_def)
  finally show ?thesis by (simp add: S_def m_def)
qed







section \<open>Removing the front instance: proofs\<close>

lemma length_shift [simp]: "length (shift k xs) = length xs"
  by (induction k) (simp_all add: shift_def)

lemma length_recode [simp]: "length (recode P k S) = length S"
  by (induction k) (simp_all add: recode_def)

lemma shift_nth:
  "k < length xs \<Longrightarrow> shift k xs ! i = (if i < k then xs ! Suc i else xs ! i)"
proof (induction k arbitrary: i)
  case 0
  then show ?case by (simp add: shift_def)
next
  case (Suc k)
  then have IH: "shift k xs ! j = (if j < k then xs ! Suc j else xs ! j)" for j
    by (simp add: shift_def)
  have s: "shift (Suc k) xs = (shift k xs)[k := shift k xs ! Suc k]"
    by (simp add: shift_def)
  show ?case
  proof (cases "i = k")
    case True
    then show ?thesis using Suc.prems by (simp add: s IH)
  next
    case False
    then show ?thesis by (auto simp: s IH)
  qed
qed

lemma recode_nth:
  "j mod NUM_STEPS \<noteq> 0 \<Longrightarrow> recode P k S ! j = S ! j"
proof (induction k)
  case 0
  then show ?case by (simp add: recode_def)
next
  case (Suc k)
  then have "j \<noteq> NUM_STEPS * k" by auto
  then show ?case using Suc by (simp add: recode_def)
qed

lemma fold_pop_fields:
  "fold (\<lambda>i s. s\<lparr>animation_stack_start_times :=
                    (animation_stack_start_times s)[i := animation_stack_start_times s ! Suc i],
                  animation_stack_starting_point :=
                    (animation_stack_starting_point s)[i := animation_stack_starting_point s ! Suc i],
                  animation_stack_steps :=
                    (animation_stack_steps s)[NUM_STEPS * i := row_code P (Suc i)]\<rparr>) xs s =
   s\<lparr>animation_stack_start_times :=
        fold (\<lambda>i xs. xs[i := xs ! Suc i]) xs (animation_stack_start_times s),
      animation_stack_starting_point :=
        fold (\<lambda>i xs. xs[i := xs ! Suc i]) xs (animation_stack_starting_point s),
      animation_stack_steps :=
        fold (\<lambda>i S. S[NUM_STEPS * i := row_code P (Suc i)]) xs (animation_stack_steps s)\<rparr>"
  by (induction xs arbitrary: s) simp_all

text \<open>\<open>popStack\<close> in closed form, on a stack within its capacity.\<close>

lemma popStack_result:
  assumes "unat (animation_stack_size s) \<le> ANIMATION_STACK_SIZE_MAX"
  shows "popStack P s =
    Inr (s\<lparr>animation_stack_start_times :=
               shift (unat (animation_stack_size s) - 1) (animation_stack_start_times s),
             animation_stack_starting_point :=
               shift (unat (animation_stack_size s) - 1) (animation_stack_starting_point s),
             animation_stack_steps :=
               recode P (unat (animation_stack_size s) - 1) (animation_stack_steps s),
             animation_stack_size := animation_stack_size s - 1\<rparr>)"
proof -
  let ?k = "unat (animation_stack_size s) - 1"
  let ?u = "\<lambda>i s. s\<lparr>animation_stack_start_times :=
                    (animation_stack_start_times s)[i := animation_stack_start_times s ! Suc i],
                  animation_stack_starting_point :=
                    (animation_stack_starting_point s)[i := animation_stack_starting_point s ! Suc i],
                  animation_stack_steps :=
                    (animation_stack_steps s)[NUM_STEPS * i := row_code P (Suc i)]\<rparr>"
  have "for_each [0..<?k]
            (\<lambda>i s.
               if Suc i < ANIMATION_STACK_SIZE_MAX then Inr (?u i s)
               else Inl (OutOfBounds (int (Suc i)))) s = Inr (fold ?u [0..<?k] s) \<and> True"
    by (rule for_each_fold [where I = "\<lambda>_. True"]) (use assms in auto)
  then show ?thesis
    by (simp add: popStack_def bind_def fold_pop_fields shift_def recode_def)
qed

text \<open>
  C6. After \<open>popStack\<close> has removed the oldest instance, every surviving instance has
  the start time, the starting point and all the step colours that it had before. On a
  stack of two instances the survivor, now at index 0, has its start time and its starting
  point, but not its colours: the row at index 0 still holds the colours of the removed
  instance, \<open>(10, 10, 10)\<close> on steps 1 to 13 where the survivor had \<open>(20, 20, 20)\<close>.
  Line 211 writes one pixel per row and copies no row.
\<close>

theorem popStack_leaves_colors_behind:
  "\<exists>s'. popStack P two_lit = Inr s' \<and>
     animation_stack_size s' = 1 \<and>
     animation_stack_start_times s' ! 0 = animation_stack_start_times two_lit ! 1 \<and>
     animation_stack_starting_point s' ! 0 = animation_stack_starting_point two_lit ! 1 \<and>
     animation_stack_steps two_lit ! (NUM_STEPS * 1 + 1) = CRGB 20 20 20 \<and>
     animation_stack_steps s' ! (NUM_STEPS * 0 + 1) = CRGB 10 10 10 \<and>
     animation_stack_steps s' ! (NUM_STEPS * 0 + 13) = CRGB 10 10 10"
proof -
  have n: "unat (animation_stack_size two_lit) \<le> ANIMATION_STACK_SIZE_MAX"
    by (simp add: two_lit_def ANIMATION_STACK_SIZE_MAX_def)
  have k: "unat (animation_stack_size two_lit) - 1 = 1"
    by (simp add: two_lit_def)
  show ?thesis
    unfolding popStack_result [OF n] k
    by (simp add: shift_nth recode_nth two_lit_def NUM_STEPS_def nth_append)
qed

section \<open>The invariant of the stack: proofs\<close>

text \<open>A 32-bit difference of two clock readings less than \<open>2^32\<close> ms apart is the real time.\<close>

lemma elapsed_real:
  assumes "x \<le> t" and "t - x < 2 ^ 32"
  shows "unat (word_of_nat t - word_of_nat x :: 32 word) = t - x"
proof -
  have "(word_of_nat t - word_of_nat x :: 32 word) = word_of_nat (t - x)"
    using assms(1) by (simp add: of_nat_diff)
  then show ?thesis using assms(2) by (simp add: unat_of_nat)
qed

lemma expired_real:
  assumes "x \<le> t" and "t - x < 2 ^ 32"
  shows "ANIMATION_RUNTIME < (word_of_nat t - word_of_nat x :: 32 word) \<longleftrightarrow> 34000 < t - x"
  by (simp add: word_less_nat_alt elapsed_real [OF assms] ANIMATION_RUNTIME_def)

lemma tracks_tick:
  assumes "mono (clock P)" and "tracks P n0 s rs"
  shows "tracks P n0 (s\<lparr>millis_calls := millis_calls s + k\<rparr>) rs"
proof -
  have "clock P (millis_calls s) \<le> clock P (millis_calls s + k)"
    using assms(1) by (simp add: monoD)
  then show ?thesis using assms(2) by (fastforce simp: tracks_def sized_def)
qed

lemma tracks_mark [simp]:
  "tracks P n0 (s\<lparr>last_trigger_time_top := v\<rparr>) rs = tracks P n0 s rs"
  "tracks P n0 (s\<lparr>last_trigger_time_bottom := v\<rparr>) rs = tracks P n0 s rs"
  "tracks P n0 (s\<lparr>frame_start_time := v\<rparr>) rs = tracks P n0 s rs"
  by (simp_all add: tracks_def sized_def)

lemma unat_size_Suc:
  "unat (n :: 8 word) < 10 \<Longrightarrow> unat (n + 1) = Suc (unat n)"
  by (simp add: unat_word_ariths)

lemma tracks_push:
  assumes m: "mono (clock P)" and t: "tracks P n0 s rs" and p: "pushStack P sp s = Inr s'"
  shows "tracks P n0 s' (rs @ [clock P (millis_calls s)])"
proof -
  let ?n = "unat (animation_stack_size s)"
  from p have n: "?n < ANIMATION_STACK_SIZE_MAX"
    by (auto simp: pushStack_def millis_def Let_def split: if_splits)
  from p n have s': "s' = s\<lparr>millis_calls := millis_calls s + 1,
      animation_stack_start_times :=
        (animation_stack_start_times s)[?n := word_of_nat (clock P (millis_calls s))],
      animation_stack_starting_point := (animation_stack_starting_point s)[?n := sp],
      animation_stack_size := animation_stack_size s + 1\<rparr>"
    by (auto simp: pushStack_def millis_def Let_def)
  have c: "clock P (millis_calls s) \<le> clock P (millis_calls s + 1)"
    using m by (simp add: monoD)
  have c0: "clock P n0 \<le> clock P (millis_calls s)"
    using m t by (simp add: monoD tracks_def)
  have len: "length rs = ?n" "length (animation_stack_start_times s) = ANIMATION_STACK_SIZE_MAX"
    using t by (simp_all add: tracks_def sized_def)
  have sz: "unat (animation_stack_size s + 1) = Suc ?n"
    using n by (simp add: unat_size_Suc ANIMATION_STACK_SIZE_MAX_def)
  have srt: "sorted (rs @ [clock P (millis_calls s)])"
    using t by (auto simp: tracks_def sorted_append)
  have nth: "\<forall>i<Suc ?n. (animation_stack_start_times s)[?n := word_of_nat (clock P (millis_calls s))] ! i
      = word_of_nat ((rs @ [clock P (millis_calls s)]) ! i)"
    using t len n by (auto simp: tracks_def nth_append nth_list_update less_Suc_eq)
  show ?thesis
    unfolding tracks_def s'
    using t c c0 n srt nth len sz
    by (auto simp: tracks_def sized_def)
qed

lemma tracks_step_cases:
  assumes m: "mono (clock P)" and t: "tracks P n0 s rs"
  shows "tracks P n0 (s\<lparr>millis_calls := millis_calls s + 1\<rparr>) (rs @ [])"
    and "pushStack P sp (s\<lparr>millis_calls := millis_calls s + 2, last_trigger_time_top := v\<rparr>) = Inr s'
         \<Longrightarrow> tracks P n0 s' (rs @ [clock P (millis_calls s + 2)])"
    and "pushStack P sp (s\<lparr>millis_calls := millis_calls s + 2, last_trigger_time_bottom := v\<rparr>) = Inr s'
         \<Longrightarrow> tracks P n0 s' (rs @ [clock P (millis_calls s + 2)])"
proof -
  show "tracks P n0 (s\<lparr>millis_calls := millis_calls s + 1\<rparr>) (rs @ [])"
    using tracks_tick [OF m t, of 1] by simp
  have t2: "tracks P n0 (s\<lparr>millis_calls := millis_calls s + 2\<rparr>) rs"
    by (rule tracks_tick [OF m t])
  {
    assume "pushStack P sp (s\<lparr>millis_calls := millis_calls s + 2, last_trigger_time_top := v\<rparr>) = Inr s'"
    from tracks_push [OF m _ this, of n0 rs] t2
    show "tracks P n0 s' (rs @ [clock P (millis_calls s + 2)])" by simp
  }
  {
    assume "pushStack P sp (s\<lparr>millis_calls := millis_calls s + 2, last_trigger_time_bottom := v\<rparr>) = Inr s'"
    from tracks_push [OF m _ this, of n0 rs] t2
    show "tracks P n0 s' (rs @ [clock P (millis_calls s + 2)])" by simp
  }
qed

text \<open>\<open>sensorLoop\<close> appends to the stack, at the current time.\<close>

lemma tracks_sensorLoop:
  assumes m: "mono (clock P)" and t: "tracks P n0 s rs"
    and l: "sensorLoop P echo_top echo_bottom s = Inr s'"
  shows "\<exists>new. tracks P n0 s' (rs @ new)"
proof (cases "unat (animation_stack_size s) < ANIMATION_STACK_SIZE_MAX")
  case False
  with l t show ?thesis by (auto simp: sensorLoop_def intro: exI [of _ "[]"])
next
  case True
  define top where "top =
    (if getDistance echo_top < MAX_SONAR_DISTANCE then
       let (now, s) = millis P s in
       if now - last_trigger_time_top s > WAIT_BETWEEN_TRIGGERS then
         let (now, s) = millis P s in
         pushStack P TOP (s\<lparr>last_trigger_time_top := now\<rparr>)
       else Inr s
     else Inr s)"
  define bottom where "bottom = (\<lambda>s.
    if getDistance echo_bottom < MAX_SONAR_DISTANCE then
      let (now, s) = millis P s in
      if now - last_trigger_time_bottom s > WAIT_BETWEEN_TRIGGERS then
        let (now, s) = millis P s in
        pushStack P BOTTOM (s\<lparr>last_trigger_time_bottom := now\<rparr>)
      else Inr s
    else Inr s)"
  have l': "bind top bottom = Inr s'"
    using l True by (simp add: sensorLoop_def top_def bottom_def Let_def)
  then obtain s1 where s1: "top = Inr s1" "bottom s1 = Inr s'"
    by (auto simp: bind_def split: sum.splits)
  have blk: "\<exists>new. tracks P n0 y (xs @ new)"
    if tx: "tracks P n0 x xs" and
      c: "y = x \<or> y = x\<lparr>millis_calls := millis_calls x + 1\<rparr> \<or>
          (\<exists>sp v. pushStack P sp (x\<lparr>millis_calls := millis_calls x + 2,
                  last_trigger_time_top := v\<rparr>) = Inr y) \<or>
          (\<exists>sp v. pushStack P sp (x\<lparr>millis_calls := millis_calls x + 2,
                  last_trigger_time_bottom := v\<rparr>) = Inr y)"
    for x y xs
  proof -
    from c consider "y = x" | "y = x\<lparr>millis_calls := millis_calls x + 1\<rparr>"
      | sp v where "pushStack P sp (x\<lparr>millis_calls := millis_calls x + 2,
                  last_trigger_time_top := v\<rparr>) = Inr y"
      | sp v where "pushStack P sp (x\<lparr>millis_calls := millis_calls x + 2,
                  last_trigger_time_bottom := v\<rparr>) = Inr y"
      by blast
    then show ?thesis
    proof cases
      case 1
      then show ?thesis using tx by (intro exI [of _ "[]"]) simp
    next
      case 2
      then show ?thesis using tracks_step_cases(1) [OF m tx] by (intro exI [of _ "[]"]) simp
    next
      case 3
      then show ?thesis using tracks_step_cases(2) [OF m tx] by blast
    next
      case 4
      then show ?thesis using tracks_step_cases(3) [OF m tx] by blast
    qed
  qed
  have "\<exists>new. tracks P n0 s1 (rs @ new)"
  proof (rule blk [OF t])
    show "s1 = s \<or> s1 = s\<lparr>millis_calls := millis_calls s + 1\<rparr> \<or>
          (\<exists>sp v. pushStack P sp (s\<lparr>millis_calls := millis_calls s + 2,
                  last_trigger_time_top := v\<rparr>) = Inr s1) \<or>
          (\<exists>sp v. pushStack P sp (s\<lparr>millis_calls := millis_calls s + 2,
                  last_trigger_time_bottom := v\<rparr>) = Inr s1)"
      using s1(1) unfolding top_def millis_def Let_def split_def
      by (auto split: if_splits)
  qed
  then obtain new1 where t1: "tracks P n0 s1 (rs @ new1)" by blast
  have "\<exists>new. tracks P n0 s' ((rs @ new1) @ new)"
  proof (rule blk [OF t1])
    show "s' = s1 \<or> s' = s1\<lparr>millis_calls := millis_calls s1 + 1\<rparr> \<or>
          (\<exists>sp v. pushStack P sp (s1\<lparr>millis_calls := millis_calls s1 + 2,
                  last_trigger_time_top := v\<rparr>) = Inr s') \<or>
          (\<exists>sp v. pushStack P sp (s1\<lparr>millis_calls := millis_calls s1 + 2,
                  last_trigger_time_bottom := v\<rparr>) = Inr s')"
      using s1(2) unfolding bottom_def millis_def Let_def split_def
      by (auto split: if_splits)
  qed
  then show ?thesis by (metis append.assoc)
qed

lemma live_tick [simp]: "live (s\<lparr>millis_calls := k\<rparr>) = live s"
  by (simp add: live_def)

lemma unat_size_pred:
  "(n :: 8 word) \<noteq> 0 \<Longrightarrow> unat (n - 1) = unat n - 1"
  by (rule unat_minus_one)

lemma live_pop:
  assumes w: "sized s" and n: "animation_stack_size s \<noteq> 0"
    "unat (animation_stack_size s) \<le> ANIMATION_STACK_SIZE_MAX"
    and p: "popStack P s = Inr s'"
  shows "live s' = tl (live s)"
proof -
  let ?n = "unat (animation_stack_size s)"
  have len: "length (animation_stack_start_times s) = 10"
    "length (animation_stack_starting_point s) = 10"
    using w by (simp_all add: sized_def ANIMATION_STACK_SIZE_MAX_def)
  have n10: "?n \<le> 10" "0 < ?n" using n by (simp_all add: ANIMATION_STACK_SIZE_MAX_def unat_gt_0)
  have s': "s' = s\<lparr>animation_stack_start_times := shift (?n - 1) (animation_stack_start_times s),
             animation_stack_starting_point := shift (?n - 1) (animation_stack_starting_point s),
             animation_stack_steps := recode P (?n - 1) (animation_stack_steps s),
             animation_stack_size := animation_stack_size s - 1\<rparr>"
    using p popStack_result [OF n(2), of P] by simp
  show ?thesis
  proof (rule nth_equalityI)
    show "length (live s') = length (tl (live s))"
      using n10 len by (simp add: live_def s' unat_size_pred [OF n(1)])
  next
    fix i assume "i < length (live s')"
    then have i: "i < ?n - 1"
      using n10 len by (simp add: live_def s' unat_size_pred [OF n(1)])
    then have "live s' ! i = (animation_stack_start_times s ! Suc i,
        animation_stack_starting_point s ! Suc i)"
      using n10 len by (simp add: live_def s' unat_size_pred [OF n(1)] shift_nth)
    moreover have "tl (live s) ! i = (animation_stack_start_times s ! Suc i,
        animation_stack_starting_point s ! Suc i)"
      using i n10 len by (simp add: live_def nth_tl)
    ultimately show "live s' ! i = tl (live s) ! i" by simp
  qed
qed

lemma tracks_pop:
  assumes t: "tracks P n0 s (x # rs)" and p: "popStack P s = Inr s'"
  shows "tracks P n0 s' rs"
proof -
  let ?n = "unat (animation_stack_size s)"
  have n: "?n \<le> ANIMATION_STACK_SIZE_MAX" "?n = Suc (length rs)"
    using t by (simp_all add: tracks_def)
  have nz: "animation_stack_size s \<noteq> 0" using n(2) by (auto simp: unat_gt_0 [symmetric])
  have len: "length (animation_stack_start_times s) = 10"
    using t by (simp add: tracks_def sized_def ANIMATION_STACK_SIZE_MAX_def)
  have s': "s' = s\<lparr>animation_stack_start_times := shift (?n - 1) (animation_stack_start_times s),
             animation_stack_starting_point := shift (?n - 1) (animation_stack_starting_point s),
             animation_stack_steps := recode P (?n - 1) (animation_stack_steps s),
             animation_stack_size := animation_stack_size s - 1\<rparr>"
    using p popStack_result [OF n(1), of P] by simp
  have nth: "\<forall>i<length rs. shift (?n - 1) (animation_stack_start_times s) ! i = word_of_nat (rs ! i)"
  proof (intro allI impI)
    fix i assume i: "i < length rs"
    then have "shift (?n - 1) (animation_stack_start_times s) ! i = animation_stack_start_times s ! Suc i"
      using n len by (simp add: shift_nth ANIMATION_STACK_SIZE_MAX_def)
    also have "\<dots> = word_of_nat ((x # rs) ! Suc i)"
      using t i by (simp add: tracks_def)
    finally show "shift (?n - 1) (animation_stack_start_times s) ! i = word_of_nat (rs ! i)" by simp
  qed
  show ?thesis
    unfolding tracks_def s'
    using t n nth by (simp add: tracks_def sized_def unat_size_pred [OF nz])
qed

declare expire.simps [simp del]

lemma expire_empty: "animation_stack_size s = 0 \<Longrightarrow> expire P s = Inr s"
  by (simp add: expire.simps)

lemma expire_keep:
  "animation_stack_size s \<noteq> 0 \<Longrightarrow>
   \<not> ANIMATION_RUNTIME < word_of_nat (clock P (millis_calls s)) - animation_stack_start_times s ! 0 \<Longrightarrow>
   expire P s = Inr (s\<lparr>millis_calls := millis_calls s + 1\<rparr>)"
  by (subst expire.simps) (simp add: millis_def word_greater_zero_iff)

lemma expire_pop:
  "animation_stack_size s \<noteq> 0 \<Longrightarrow>
   ANIMATION_RUNTIME < word_of_nat (clock P (millis_calls s)) - animation_stack_start_times s ! 0 \<Longrightarrow>
   expire P s = bind (popStack P (s\<lparr>millis_calls := millis_calls s + 1\<rparr>)) (expire P)"
  by (subst expire.simps) (simp add: millis_def word_greater_zero_iff bind_def)

text \<open>
  The expiry loop removes a prefix of the stack; what it leaves had run for at most the
  runtime at the loop's last reading of the clock.
\<close>

lemma tracks_expire:
  assumes m: "mono (clock P)"
    and t: "tracks P n0 s rs"
    and e: "expire P s = Inr s'"
    and span: "clock P (millis_calls s') \<le> clock P n0 + FRAME_SPAN"
  shows "\<exists>k. tracks P n0 s' (drop k rs) \<and> live s' = drop k (live s) \<and>
           millis_calls s \<le> millis_calls s' \<and>
           (drop k rs \<noteq> [] \<longrightarrow> millis_calls s < millis_calls s' \<and>
              (\<forall>x\<in>set (drop k rs). clock P (millis_calls s' - 1) \<le> x + 34000))"
  using t e
proof (induction rs arbitrary: s)
  case Nil
  then have "animation_stack_size s = 0" by (simp add: tracks_def unat_eq_zero)
  with Nil have "s' = s" by (simp add: expire_empty)
  with Nil show ?case by (intro exI [of _ 0]) simp
next
  case (Cons x rs)
  have nz: "animation_stack_size s \<noteq> 0"
    using Cons.prems(1) by (auto simp: tracks_def unat_gt_0 [symmetric])
  have n: "unat (animation_stack_size s) \<le> ANIMATION_STACK_SIZE_MAX"
    using Cons.prems(1) by (simp add: tracks_def)
  have st0: "animation_stack_start_times s ! 0 = word_of_nat x"
    using Cons.prems(1) by (auto simp: tracks_def)
  let ?t = "clock P (millis_calls s)"
  let ?s1 = "s\<lparr>millis_calls := millis_calls s + 1\<rparr>"
  have t1: "tracks P n0 ?s1 (x # rs)" by (rule tracks_tick [OF m Cons.prems(1)])
  show ?case
  proof (cases "ANIMATION_RUNTIME < word_of_nat ?t - animation_stack_start_times s ! 0")
    case True
    then have "bind (popStack P ?s1) (expire P) = Inr s'"
      using Cons.prems(2) nz by (simp add: expire_pop)
    then obtain s2 where s2: "popStack P ?s1 = Inr s2" "expire P s2 = Inr s'"
      by (auto simp: bind_def split: sum.splits)
    have t2: "tracks P n0 s2 rs" by (rule tracks_pop [OF t1 s2(1)])
    have l2: "live s2 = tl (live s)"
      using live_pop [OF _ _ _ s2(1)] Cons.prems(1) nz n by (simp add: tracks_def sized_def)
    have c2: "millis_calls s2 = millis_calls s + 1"
      using s2(1) popStack_result [of ?s1 P] n by simp
    from Cons.IH [OF t2 s2(2)] obtain k where k:
      "tracks P n0 s' (drop k rs)" "live s' = drop k (live s2)"
      "millis_calls s2 \<le> millis_calls s'"
      "drop k rs \<noteq> [] \<longrightarrow> millis_calls s2 < millis_calls s' \<and>
              (\<forall>x\<in>set (drop k rs). clock P (millis_calls s' - 1) \<le> x + 34000)"
      by blast
    show ?thesis
      using k c2 l2 by (intro exI [of _ "Suc k"]) (simp add: drop_Suc)
  next
    case False
    then have s': "s' = ?s1" using Cons.prems(2) nz by (simp add: expire_keep)
    have xt: "x \<le> ?t" using Cons.prems(1) by (simp add: tracks_def)
    have "?t \<le> clock P (millis_calls s')" using m by (simp add: s' monoD)
    also have "\<dots> \<le> clock P n0 + FRAME_SPAN" by (rule span)
    also have "clock P n0 \<le> x + 34000 + FRAME_SPAN" using Cons.prems(1) by (simp add: tracks_def)
    finally have "?t - x < 2 ^ 32" by (simp add: FRAME_SPAN_def)
    from expired_real [OF xt this] False st0 have age: "?t \<le> x + 34000" by simp
    have "\<forall>y\<in>set (x # rs). ?t \<le> y + 34000"
      using age Cons.prems(1) by (auto simp: tracks_def)
    then show ?thesis
      using t1 by (intro exI [of _ 0]) (simp add: s')
  qed
qed

section \<open>What the rest of a frame leaves alone\<close>

lemma for_each_count:
  assumes "\<And>i a a'. f i a = Inr a' \<Longrightarrow> h a' = Suc (h a)"
  shows "for_each xs f a = Inr a' \<Longrightarrow> h a' = h a + length xs"
proof (induction xs arbitrary: a)
  case Nil
  then show ?case by simp
next
  case (Cons i xs)
  then show ?case using assms by (fastforce split: sum.splits)
qed

lemma animate_frame:
  assumes "animate P i s = Inr s'"
  shows "stack_of s' = stack_of s" and "millis_calls s' = Suc (millis_calls s)"
    and "length (animation_stack_steps s') = length (animation_stack_steps s)"
    and "leds s' = leds s"
proof -
  let ?body = "\<lambda>duration starting_point k s.
               let brightness = curve P duration k;
                   led_index = (if starting_point then k else NUM_STEPS - k);
                   idx = NUM_STEPS * i + led_index
               in if idx < NUM_STEPS * ANIMATION_STACK_SIZE_MAX then
                    Inr (s\<lparr>animation_stack_steps := (animation_stack_steps s)
                           [idx := CRGB (ucast brightness) (ucast brightness) (ucast brightness)]\<rparr>)
                  else Inl (OutOfBounds (int idx))"
  obtain d sp where l: "for_each [0..<NUM_STEPS] (?body d sp)
      (s\<lparr>millis_calls := millis_calls s + 1\<rparr>) = Inr s'"
    using assms by (auto simp: animate_def millis_def Let_def split: if_splits)
  have k: "h s' = h (s\<lparr>millis_calls := millis_calls s + 1\<rparr>)"
    if "\<And>x S. h (x\<lparr>animation_stack_steps := S\<rparr>) = h x" for h :: "sched \<Rightarrow> 'x"
    by (rule for_each_mono [OF _ l]) (auto simp: Let_def that split: if_splits)
  show "stack_of s' = stack_of s" using k [of stack_of] by (simp add: stack_of_def)
  show "millis_calls s' = Suc (millis_calls s)" using k [of millis_calls] by simp
  show "leds s' = leds s" using k [of leds] by simp
  have "length (animation_stack_steps s') =
      length (animation_stack_steps (s\<lparr>millis_calls := millis_calls s + 1\<rparr>))"
    by (rule for_each_mono [OF _ l]) (auto simp: Let_def split: if_splits)
  then show "length (animation_stack_steps s') = length (animation_stack_steps s)" by simp
qed

lemma animates_frame:
  assumes "for_each xs (animate P) s = Inr s'"
  shows "stack_of s' = stack_of s" and "millis_calls s' = millis_calls s + length xs"
    and "length (animation_stack_steps s') = length (animation_stack_steps s)"
    and "leds s' = leds s"
proof -
  show "stack_of s' = stack_of s"
    by (rule for_each_mono [OF _ assms]) (rule animate_frame)
  show "millis_calls s' = millis_calls s + length xs"
    by (rule for_each_count [OF _ assms]) (rule animate_frame)
  show "length (animation_stack_steps s') = length (animation_stack_steps s)"
    by (rule for_each_mono [OF _ assms, where m = "\<lambda>s. length (animation_stack_steps s)"])
       (rule animate_frame)
  show "leds s' = leds s"
    by (rule for_each_mono [OF _ assms]) (rule animate_frame)
qed

lemma displayLeds_frame:
  assumes "displayLeds s = Inr s'"
  shows "s'\<lparr>leds := []\<rparr> = s\<lparr>leds := []\<rparr>" and "length (leds s') = length (leds s)"
proof -
  have k: "h s' = h s"
    if h: "\<And>x i c. h (x\<lparr>leds := (leds x)[i := c]\<rparr>) = h x" for h :: "sched \<Rightarrow> 'x"
  proof (rule for_each_mono [OF _ assms [unfolded displayLeds_def]])
    fix step and a a' :: sched
    assume "for_each [0..<LEDS_PER_STEP_strip]
         (\<lambda>led_on_step s.
            let i = step * LEDS_PER_STEP_strip + led_on_step
            in for_each [0..<unat (animation_stack_size s)]
                 (\<lambda>animation s.
                    if animation < ANIMATION_STACK_SIZE_MAX then
                      let px = leds s ! i;
                          c = animation_stack_steps s ! (NUM_STEPS * animation + step)
                      in Inr (s\<lparr>leds := (leds s)
                                [i := CRGB (sat_sum (r px) (r c)) (sat_sum (g px) (g c))
                                        (sat_sum (b px) (b c))]\<rparr>)
                    else Inl (OutOfBounds (int animation)))
                 (s\<lparr>leds := (leds s)[i := CRGB 0 0 0]\<rparr>)) a = Inr a'"
    then show "h a' = h a"
    proof (rule for_each_mono [rotated])
      fix led and x x' :: sched
      assume "(let i = step * LEDS_PER_STEP_strip + led
            in for_each [0..<unat (animation_stack_size x)]
                 (\<lambda>animation s.
                    if animation < ANIMATION_STACK_SIZE_MAX then
                      let px = leds s ! i;
                          c = animation_stack_steps s ! (NUM_STEPS * animation + step)
                      in Inr (s\<lparr>leds := (leds s)
                                [i := CRGB (sat_sum (r px) (r c)) (sat_sum (g px) (g c))
                                        (sat_sum (b px) (b c))]\<rparr>)
                    else Inl (OutOfBounds (int animation)))
                 (x\<lparr>leds := (leds x)[i := CRGB 0 0 0]\<rparr>)) = Inr x'"
      then have "h x' = h (x\<lparr>leds := (leds x)[step * LEDS_PER_STEP_strip + led := CRGB 0 0 0]\<rparr>)"
        unfolding Let_def [of "step * LEDS_PER_STEP_strip + led"]
        by (rule for_each_mono [rotated]) (auto simp: Let_def h split: if_splits)
      then show "h x' = h x" by (simp add: h)
    qed
  qed
  show "s'\<lparr>leds := []\<rparr> = s\<lparr>leds := []\<rparr>"
    using k [of "\<lambda>s. s\<lparr>leds := []\<rparr>"] by simp
  show "length (leds s') = length (leds s)"
    using k [of "\<lambda>s. length (leds s)"] by simp
qed

lemma frameLimiter_state:
  "snd (frameLimiter P s) =
     s\<lparr>millis_calls := millis_calls s + 2,
       frame_start_time := word_of_nat (clock P (millis_calls s + 1))\<rparr>"
  by (simp add: frameLimiter_def millis_def Let_def split_def)

lemma loop_cases:
  assumes "loop P echo s = Inr s'"
  obtains s1 s2 s3 s4 where
    "sensorLoop P (fst echo) (snd echo) s = Inr s1"
    "expire P s1 = Inr s2"
    "for_each [0..<unat (animation_stack_size s2)] (animate P) s2 = Inr s3"
    "displayLeds s3 = Inr s4"
    "s' = snd (frameLimiter P s4)"
  using assms
  by (auto simp: loop_def animationLoop_def bind_def split: sum.splits)

lemma tracks_same:
  assumes "mono (clock P)" and "tracks P n0 s rs"
    and "stack_of s' = stack_of s" and "millis_calls s \<le> millis_calls s'"
    and "length (animation_stack_steps s') = length (animation_stack_steps s)"
    and "length (leds s') = length (leds s)"
  shows "tracks P n0 s' rs"
proof -
  have "clock P (millis_calls s) \<le> clock P (millis_calls s')"
    using assms(1,4) by (simp add: monoD)
  then show ?thesis
    using assms(2,3,4,5,6) by (fastforce simp: tracks_def sized_def stack_of_def)
qed

text \<open>One frame, from the state before it to the state after it.\<close>

lemma frame_tracks:
  assumes m: "mono (clock P)"
    and t: "tracks P (millis_calls s) s rs"
    and l: "loop P echo s = Inr s'"
    and span: "clock P (millis_calls s') \<le> clock P (millis_calls s) + FRAME_SPAN"
  shows "\<exists>rs'. tracks P (millis_calls s') s' rs'"
proof -
  from l obtain s1 s2 s3 s4 where
    1: "sensorLoop P (fst echo) (snd echo) s = Inr s1" and
    2: "expire P s1 = Inr s2" and
    3: "for_each [0..<unat (animation_stack_size s2)] (animate P) s2 = Inr s3" and
    4: "displayLeds s3 = Inr s4" and
    5: "s' = snd (frameLimiter P s4)"
    by (rule loop_cases)
  let ?n0 = "millis_calls s"
  from tracks_sensorLoop [OF m t 1] obtain new where t1: "tracks P ?n0 s1 (rs @ new)" by blast
  have c3: "millis_calls s3 = millis_calls s2 + unat (animation_stack_size s2)"
    using animates_frame(2) [OF 3] by simp
  have f4: "stack_of s4 = stack_of s3" "millis_calls s4 = millis_calls s3"
    "length (animation_stack_steps s4) = length (animation_stack_steps s3)"
    using displayLeds_frame(1) [OF 4]
    by (auto simp: stack_of_def dest: arg_cong [where f = animation_stack_start_times]
        arg_cong [where f = animation_stack_starting_point]
        arg_cong [where f = animation_stack_size] arg_cong [where f = last_trigger_time_top]
        arg_cong [where f = last_trigger_time_bottom] arg_cong [where f = millis_calls]
        arg_cong [where f = animation_stack_steps])
  have c': "millis_calls s' = millis_calls s4 + 2" by (simp add: 5 frameLimiter_state)
  have le: "millis_calls s2 \<le> millis_calls s'" using c3 f4(2) c' by simp
  have "clock P (millis_calls s2) \<le> clock P (millis_calls s')" using m le by (simp add: monoD)
  with span have span2: "clock P (millis_calls s2) \<le> clock P ?n0 + FRAME_SPAN" by simp
  from tracks_expire [OF m t1 2 span2] obtain k where
    t2: "tracks P ?n0 s2 (drop k (rs @ new))" and
    c2: "millis_calls s1 \<le> millis_calls s2" and
    age: "drop k (rs @ new) \<noteq> [] \<longrightarrow> millis_calls s1 < millis_calls s2 \<and>
           (\<forall>x\<in>set (drop k (rs @ new)). clock P (millis_calls s2 - 1) \<le> x + 34000)"
    by blast
  let ?rs = "drop k (rs @ new)"
  have t3: "tracks P ?n0 s3 ?rs"
    by (rule tracks_same [OF m t2 animates_frame(1) [OF 3] _ animates_frame(3) [OF 3]])
       (simp_all add: c3 animates_frame(4) [OF 3])
  have t4: "tracks P ?n0 s4 ?rs"
    by (rule tracks_same [OF m t3 f4(1) _ f4(3) displayLeds_frame(2) [OF 4]]) (simp add: f4(2))
  have t5: "tracks P ?n0 s' ?rs"
    using tracks_tick [OF m t4, of 2] by (simp add: 5 frameLimiter_state)
  have fresh: "\<forall>x\<in>set ?rs. clock P (millis_calls s') \<le> x + 34000 + FRAME_SPAN"
  proof
    fix x assume x: "x \<in> set ?rs"
    then have ne: "?rs \<noteq> []" by auto
    with age x have a: "millis_calls s1 < millis_calls s2"
      "clock P (millis_calls s2 - 1) \<le> x + 34000" by auto
    have "?n0 \<le> millis_calls s1" using t1 by (simp add: tracks_def)
    with a(1) have "?n0 \<le> millis_calls s2 - 1" by simp
    then have "clock P ?n0 \<le> clock P (millis_calls s2 - 1)" using m by (simp add: monoD)
    with span a(2) show "clock P (millis_calls s') \<le> x + 34000 + FRAME_SPAN" by simp
  qed
  have "tracks P (millis_calls s') s' ?rs"
    using t5 fresh by (simp add: tracks_def)
  then show ?thesis by blast
qed

lemma tracks_boot: "tracks P 0 boot []"
  by (simp add: tracks_def sized_def boot_def)

text \<open>Every reachable state has the invariant.\<close>

lemma reach_tracks:
  assumes "mono (clock P)" and "reach P s"
  shows "\<exists>rs. tracks P (millis_calls s) s rs"
  using assms(2)
proof (induction rule: reach.induct)
  case reach_boot
  show ?case using tracks_boot [of P] by (auto simp: boot_def)
next
  case (reach_frame s echo s')
  then obtain rs where "tracks P (millis_calls s) s rs" by blast
  from frame_tracks [OF assms(1) this reach_frame(2,3)] show ?case .
qed

section \<open>Frames on the stack variables alone: proofs\<close>

lemma ctl_fields [simp]:
  "animation_stack_start_times (ctl s) = animation_stack_start_times s"
  "animation_stack_starting_point (ctl s) = animation_stack_starting_point s"
  "animation_stack_size (ctl s) = animation_stack_size s"
  "last_trigger_time_top (ctl s) = last_trigger_time_top s"
  "last_trigger_time_bottom (ctl s) = last_trigger_time_bottom s"
  "millis_calls (ctl s) = millis_calls s"
  by (simp_all add: ctl_def)

lemma pushStack_ctl:
  "pushStack P sp (ctl s) = map_sum id ctl (pushStack P sp s)"
  by (simp add: pushStack_def millis_def Let_def ctl_def)

lemma ctl_update [simp]:
  "ctl (s\<lparr>millis_calls := k\<rparr>) = (ctl s)\<lparr>millis_calls := k\<rparr>"
  "ctl (s\<lparr>last_trigger_time_top := v\<rparr>) = (ctl s)\<lparr>last_trigger_time_top := v\<rparr>"
  "ctl (s\<lparr>last_trigger_time_bottom := v\<rparr>) = (ctl s)\<lparr>last_trigger_time_bottom := v\<rparr>"
  by (simp_all add: ctl_def)

lemma sensorLoop_ctl:
  "sensorLoop P echo_top echo_bottom (ctl s) = map_sum id ctl (sensorLoop P echo_top echo_bottom s)"
proof -
  define T where "T = (\<lambda>x.
    if getDistance echo_top < MAX_SONAR_DISTANCE then
      let (now, s) = millis P x in
      if now - last_trigger_time_top s > WAIT_BETWEEN_TRIGGERS then
        let (now, s) = millis P s in
        pushStack P TOP (s\<lparr>last_trigger_time_top := now\<rparr>)
      else Inr s
    else Inr x)"
  define B where "B = (\<lambda>x.
    if getDistance echo_bottom < MAX_SONAR_DISTANCE then
      let (now, s) = millis P x in
      if now - last_trigger_time_bottom s > WAIT_BETWEEN_TRIGGERS then
        let (now, s) = millis P s in
        pushStack P BOTTOM (s\<lparr>last_trigger_time_bottom := now\<rparr>)
      else Inr s
    else Inr x)"
  have sl: "sensorLoop P echo_top echo_bottom x =
      (if unat (animation_stack_size x) < ANIMATION_STACK_SIZE_MAX then bind (T x) B else Inr x)"
    for x
    by (simp add: sensorLoop_def T_def B_def Let_def)
  have T: "T (ctl x) = map_sum id ctl (T x)" for x
    by (simp add: T_def millis_def Let_def pushStack_ctl [symmetric])
  have B: "B (ctl x) = map_sum id ctl (B x)" for x
    by (simp add: B_def millis_def Let_def pushStack_ctl [symmetric])
  have "bind (map_sum id ctl (T s)) B = map_sum id ctl (bind (T s) B)"
    by (cases "T s") (simp_all add: bind_def B)
  then show ?thesis by (simp add: sl T)
qed

lemma recode_Nil [simp]: "recode P k [] = []"
  by (induction k) (simp_all add: recode_def)

lemma popStack_ctl:
  assumes "unat (animation_stack_size s) \<le> ANIMATION_STACK_SIZE_MAX"
  shows "popStack P (ctl s) = map_sum id ctl (popStack P s)"
  using assms by (simp add: popStack_result ctl_def)

lemma popStack_size_le:
  assumes "unat (animation_stack_size s) \<le> ANIMATION_STACK_SIZE_MAX" "popStack P s = Inr s'"
    "animation_stack_size s \<noteq> 0"
  shows "unat (animation_stack_size s') < unat (animation_stack_size s)"
  using assms popStack_result [OF assms(1), of P]
  by (auto simp: unat_size_pred unat_gt_0 [symmetric])

lemma expire_ctl:
  assumes "unat (animation_stack_size s) \<le> ANIMATION_STACK_SIZE_MAX"
  shows "expire P (ctl s) = map_sum id ctl (expire P s)"
  using assms
proof (induction "unat (animation_stack_size s)" arbitrary: s rule: less_induct)
  case less
  show ?case
  proof (cases "animation_stack_size s = 0")
    case True
    then show ?thesis by (simp add: expire_empty)
  next
    case nz: False
    let ?s1 = "s\<lparr>millis_calls := millis_calls s + 1\<rparr>"
    show ?thesis
    proof (cases "ANIMATION_RUNTIME <
        word_of_nat (clock P (millis_calls s)) - animation_stack_start_times s ! 0")
      case False
      then show ?thesis using nz by (simp add: expire_keep)
    next
      case True
      have n1: "unat (animation_stack_size ?s1) \<le> ANIMATION_STACK_SIZE_MAX"
        using less.prems by simp
      obtain s2 where s2: "popStack P ?s1 = Inr s2"
        using popStack_result [OF n1, of P] by simp
      have lt: "unat (animation_stack_size s2) < unat (animation_stack_size s)"
        using popStack_size_le [OF n1 s2] nz by simp
      then have n2: "unat (animation_stack_size s2) \<le> ANIMATION_STACK_SIZE_MAX"
        using less.prems by simp
      have pc: "popStack P ((ctl s)\<lparr>millis_calls := millis_calls s + 1\<rparr>) = Inr (ctl s2)"
        using popStack_ctl [OF n1, of P] s2 by simp
      have "expire P (ctl s) = expire P (ctl s2)"
        using True nz pc by (simp add: expire_pop bind_def)
      also have "\<dots> = map_sum id ctl (expire P s2)"
        by (rule less.hyps [OF lt n2])
      also have "expire P s2 = expire P s"
        using True nz s2 by (simp add: expire_pop bind_def)
      finally show ?thesis .
    qed
  qed
qed

lemma animate_succeeds:
  assumes "i < 9 \<or> (i = 9 \<and> animation_stack_starting_point s ! 9)"
  shows "\<exists>s'. animate P i s = Inr s'"
proof -
  have i: "i < ANIMATION_STACK_SIZE_MAX" using assms by (auto simp: ANIMATION_STACK_SIZE_MAX_def)
  have g: "NUM_STEPS * i + (if animation_stack_starting_point s ! i then k else NUM_STEPS - k)
      < NUM_STEPS * ANIMATION_STACK_SIZE_MAX" if "k < NUM_STEPS" for k
    using assms that by (auto simp: NUM_STEPS_def ANIMATION_STACK_SIZE_MAX_def)
  have "\<exists>a'. for_each [0..<NUM_STEPS]
            (\<lambda>k s'.
               let brightness = curve P d k;
                   led_index = (if animation_stack_starting_point s ! i then k else NUM_STEPS - k);
                   idx = NUM_STEPS * i + led_index
               in if idx < NUM_STEPS * ANIMATION_STACK_SIZE_MAX then
                    Inr (s'\<lparr>animation_stack_steps := (animation_stack_steps s')
                           [idx := CRGB (ucast brightness) (ucast brightness) (ucast brightness)]\<rparr>)
                  else Inl (OutOfBounds (int idx)))
            a = Inr a' \<and> True" for d and a :: sched
    by (rule for_each_invariant) (use g in \<open>auto simp: Let_def\<close>)
  then show ?thesis using i by (simp add: animate_def millis_def Let_def)
qed

lemma animates_succeed:
  assumes "n < 10 \<or> (n = 10 \<and> animation_stack_starting_point s ! 9)"
  shows "\<exists>s'. for_each [0..<n] (animate P) s = Inr s'"
proof -
  have "\<exists>s'. for_each [0..<n] (animate P) s = Inr s' \<and> stack_of s' = stack_of s"
  proof (rule for_each_invariant)
    show "stack_of s = stack_of s" by simp
  next
    fix i and a :: sched
    assume i: "i \<in> set [0..<n]" and a: "stack_of a = stack_of s"
    have sp: "animation_stack_starting_point a = animation_stack_starting_point s"
      using a by (simp add: stack_of_def)
    have "i < 9 \<or> (i = 9 \<and> animation_stack_starting_point a ! 9)"
      using i assms sp by auto
    from animate_succeeds [OF this, of P] obtain a' where a': "animate P i a = Inr a'" by blast
    with animate_frame(1) [OF a'] a
    show "\<exists>a'. animate P i a = Inr a' \<and> stack_of a' = stack_of s" by simp
  qed
  then show ?thesis by blast
qed

lemma ctl_eqI:
  assumes "stack_of a = stack_of c" and "millis_calls a = k"
  shows "ctl a = (ctl c)\<lparr>millis_calls := k\<rparr>"
  using assms by (cases a, cases c) (simp add: ctl_def stack_of_def)

lemma map_sum_Inr_D:
  "map_sum id f m = Inr c \<Longrightarrow> \<exists>x. m = Inr x \<and> f x = c"
  by (cases m) auto

lemma map_sum_Inl_D:
  "map_sum id f m = Inl e \<Longrightarrow> m = Inl e"
  by (cases m) auto

text \<open>A frame computed on the stack variables alone is a frame of the program.\<close>

lemma reach_step:
  assumes m: "mono (clock P)" and r: "reach P s"
    and k: "skeleton P echo (ctl s) = Inr c'"
    and span: "clock P (millis_calls c') \<le> clock P (millis_calls s) + FRAME_SPAN"
  shows "\<exists>s'. loop P echo s = Inr s' \<and> reach P s' \<and> ctl s' = c'"
proof -
  from k obtain c1 c2 where
    c1: "sensorLoop P (fst echo) (snd echo) (ctl s) = Inr c1" and
    c2: "expire P c1 = Inr c2" and
    ok: "\<not> (unat (animation_stack_size c2) = ANIMATION_STACK_SIZE_MAX \<and>
            \<not> animation_stack_starting_point c2 ! 9)" and
    c': "c' = c2\<lparr>millis_calls := millis_calls c2 + unat (animation_stack_size c2) + 2\<rparr>"
    by (auto simp: skeleton_def bind_def split: sum.splits if_splits)
  from reach_tracks [OF m r] obtain rs where t: "tracks P (millis_calls s) s rs" by blast
  from c1 obtain s1 where s1: "sensorLoop P (fst echo) (snd echo) s = Inr s1" "ctl s1 = c1"
    using map_sum_Inr_D [of ctl "sensorLoop P (fst echo) (snd echo) s" c1]
    by (auto simp: sensorLoop_ctl)
  from tracks_sensorLoop [OF m t s1(1)] obtain new where
    t1: "tracks P (millis_calls s) s1 (rs @ new)" by blast
  have n1: "unat (animation_stack_size s1) \<le> ANIMATION_STACK_SIZE_MAX"
    using t1 by (simp add: tracks_def)
  from c2 obtain s2 where s2: "expire P s1 = Inr s2" "ctl s2 = c2"
    using map_sum_Inr_D [of ctl "expire P s1" c2] expire_ctl [OF n1, of P] s1(2) by auto
  have cc: "millis_calls c2 = millis_calls s2" "animation_stack_size c2 = animation_stack_size s2"
    "animation_stack_starting_point c2 = animation_stack_starting_point s2"
    using s2(2) by auto
  have "clock P (millis_calls s2) \<le> clock P (millis_calls c')"
    using m by (simp add: c' cc monoD)
  with span have span2: "clock P (millis_calls s2) \<le> clock P (millis_calls s) + FRAME_SPAN"
    by simp
  from tracks_expire [OF m t1 s2(1) span2] obtain j where
    t2: "tracks P (millis_calls s) s2 (drop j (rs @ new))" by blast
  have n2: "unat (animation_stack_size s2) \<le> ANIMATION_STACK_SIZE_MAX" and w2: "sized s2"
    using t2 by (simp_all add: tracks_def)
  have "unat (animation_stack_size s2) < 10 \<or>
      (unat (animation_stack_size s2) = 10 \<and> animation_stack_starting_point s2 ! 9)"
    using ok n2 by (auto simp: cc ANIMATION_STACK_SIZE_MAX_def)
  from animates_succeed [OF this, of P] obtain s3 where
    s3: "for_each [0..<unat (animation_stack_size s2)] (animate P) s2 = Inr s3" by blast
  have f3: "stack_of s3 = stack_of s2"
    "millis_calls s3 = millis_calls s2 + unat (animation_stack_size s2)"
    "length (animation_stack_steps s3) = length (animation_stack_steps s2)" "leds s3 = leds s2"
    using animates_frame [OF s3] by simp_all
  have w3: "sized s3" "unat (animation_stack_size s3) \<le> ANIMATION_STACK_SIZE_MAX"
    using w2 n2 f3 by (simp_all add: sized_def stack_of_def)
  from displayLeds_paint [OF w3] obtain s4 where s4: "displayLeds s3 = Inr s4" by blast
  have f4: "stack_of s4 = stack_of s3" "millis_calls s4 = millis_calls s3"
    using displayLeds_frame(1) [OF s4]
    by (auto simp: stack_of_def dest: arg_cong [where f = animation_stack_start_times]
        arg_cong [where f = animation_stack_starting_point]
        arg_cong [where f = animation_stack_size] arg_cong [where f = last_trigger_time_top]
        arg_cong [where f = last_trigger_time_bottom] arg_cong [where f = millis_calls])
  define s' where "s' = snd (frameLimiter P s4)"
  have l: "loop P echo s = Inr s'"
    by (simp add: loop_def animationLoop_def bind_def s1(1) s2(1) s3 s4 s'_def)
  have f': "stack_of s' = stack_of s2"
    "millis_calls s' = millis_calls s2 + unat (animation_stack_size s2) + 2"
    using f3 f4 by (simp_all add: s'_def frameLimiter_state stack_of_def)
  have e: "ctl s' = c'"
    using ctl_eqI [OF f'] by (simp add: c' s2(2) [symmetric])
  have "clock P (millis_calls s') \<le> clock P (millis_calls s) + FRAME_SPAN"
    using span by (simp add: c' cc f'(2))
  from reach_frame [OF r l this] l e show ?thesis by blast
qed

text \<open>A failure of \<open>sensorLoop\<close> on the stack variables is a failure of the frame.\<close>

lemma loop_fails:
  assumes "sensorLoop P (fst echo) (snd echo) (ctl s) = Inl x"
  shows "sensorLoop P (fst echo) (snd echo) s = Inl x" and "loop P echo s = Inl x"
proof -
  show "sensorLoop P (fst echo) (snd echo) s = Inl x"
    using assms map_sum_Inl_D [of ctl "sensorLoop P (fst echo) (snd echo) s" x]
    by (simp add: sensorLoop_ctl)
  then show "loop P echo s = Inl x" by (simp add: loop_def bind_def)
qed

section \<open>Admission: proofs\<close>

lemma mono_P5: "mono (clock P5)"
  by (rule monoI) (simp add: P5_def)

lemma rep10: "replicate 10 x = [x, x, x, x, x, x, x, x, x, x]"
  by (simp add: numeral_eq_Suc)

lemma ctl_boot: "ctl boot = stack_state [0, 0, 0, 0, 0, 0, 0, 0, 0, 0] none10 0 0 0 0"
  by (simp add: ctl_def boot_def stack_state_def none10_def ANIMATION_STACK_SIZE_MAX_def rep10)

lemma getDistance_near: "getDistance 1480 = 10"
  by (simp add: getDistance_def MAX_SONAR_DISTANCE_def)

lemma getDistance_far: "getDistance 0 = 35"
  by (simp add: getDistance_def MAX_SONAR_DISTANCE_def)

text \<open>The expiry loop unfolded once, for evaluation on a given state.\<close>

lemma expire_code:
  "expire P s =
    (if animation_stack_size s = 0 then Inr s
     else if ANIMATION_RUNTIME <
         word_of_nat (clock P (millis_calls s)) - animation_stack_start_times s ! 0
       then bind (popStack P (s\<lparr>millis_calls := millis_calls s + 1\<rparr>)) (expire P)
       else Inr (s\<lparr>millis_calls := millis_calls s + 1\<rparr>))"
  by (simp add: expire_empty expire_keep expire_pop)

lemmas frame_eval =
  skeleton_def sensorLoop_def pushStack_def millis_def bind_def Let_def stack_state_def
  getDistance_near getDistance_far ANIMATION_STACK_SIZE_MAX_def MAX_SONAR_DISTANCE_def
  WAIT_BETWEEN_TRIGGERS_def ANIMATION_RUNTIME_def TOP_def BOTTOM_def none10_def FRAME_SPAN_def

lemmas expire_eval = expire_code [where s = "\<lparr>animation_stack_start_times = _,
  animation_stack_starting_point = _, animation_stack_steps = _, animation_stack_size = _,
  last_trigger_time_top = _, last_trigger_time_bottom = _, frame_start_time = _, leds = _,
  millis_calls = _\<rparr>"]

lemma reach_next:
  assumes "mono (clock P)" and "reach P s" and "ctl s = c"
    and "skeleton P echo c = Inr c'"
    and "clock P (millis_calls c') \<le> clock P (millis_calls c) + FRAME_SPAN"
  shows "\<exists>s'. reach P s' \<and> ctl s' = c'"
proof -
  have "millis_calls c = millis_calls s" using assms(3) by auto
  with reach_step [OF assms(1,2), of echo c'] assms(3,4,5) show ?thesis by auto
qed

text \<open>
  C5. In every reachable state \<open>animation_stack_size\<close> is at most
  \<open>ANIMATION_STACK_SIZE_MAX\<close>, and a trigger that arrives while the stack is full is
  dropped. The run \<open>P5\<close>, in which somebody stands at the bottom sensor from the first
  frame on and at the top sensor from the second, reaches a stack of 9 instances after
  five frames. In the sixth frame the one test of line 101 lets both sensors trigger: the
  first \<open>pushStack\<close> fills the stack, the second one writes
  \<open>animation_stack_start_times[10]\<close>, past the arrays, on its way to a size of 11.
\<close>

theorem sensorLoop_overflows_stack:
  "\<exists>s. reach P5 s \<and> unat (animation_stack_size s) = 9 \<and>
       sensorLoop P5 1480 1480 s = Inl (OutOfBounds 10) \<and>
       loop P5 (1480, 1480) s = Inl (OutOfBounds 10)"
proof -
  let ?c1 = "stack_state [3100, 0, 0, 0, 0, 0, 0, 0, 0, 0]
     [True, False, False, False, False, False, False, False, False, False] 1 0 3100 7"
  let ?c2 = "stack_state [3100, 6200, 6200, 0, 0, 0, 0, 0, 0, 0]
     [True, False, True, False, False, False, False, False, False, False] 3 6200 6200 19"
  let ?c3 = "stack_state [3100, 6200, 6200, 9300, 9300, 0, 0, 0, 0, 0]
     [True, False, True, False, True, False, False, False, False, False] 5 9300 9300 33"
  let ?c4 = "stack_state [3100, 6200, 6200, 9300, 9300, 12400, 12400, 0, 0, 0]
     [True, False, True, False, True, False, True, False, False, False] 7 12400 12400 49"
  let ?c5 = "stack_state [3100, 6200, 6200, 9300, 9300, 12400, 12400, 15500, 15500, 0]
     [True, False, True, False, True, False, True, False, True, False] 9 15500 15500 67"
  have "\<exists>s. reach P5 s \<and> ctl s = ?c1"
    by (rule reach_next [OF mono_P5 reach_boot ctl_boot, of "(0, 1480)"])
       (simp_all add: frame_eval expire_eval P5_def)
  then obtain s1 where s1: "reach P5 s1" "ctl s1 = ?c1" by blast
  have "\<exists>s. reach P5 s \<and> ctl s = ?c2"
    by (rule reach_next [OF mono_P5 s1, of "(1480, 1480)"])
       (simp_all add: frame_eval expire_eval P5_def)
  then obtain s2 where s2: "reach P5 s2" "ctl s2 = ?c2" by blast
  have "\<exists>s. reach P5 s \<and> ctl s = ?c3"
    by (rule reach_next [OF mono_P5 s2, of "(1480, 1480)"])
       (simp_all add: frame_eval expire_eval P5_def)
  then obtain s3 where s3: "reach P5 s3" "ctl s3 = ?c3" by blast
  have "\<exists>s. reach P5 s \<and> ctl s = ?c4"
    by (rule reach_next [OF mono_P5 s3, of "(1480, 1480)"])
       (simp_all add: frame_eval expire_eval P5_def)
  then obtain s4 where s4: "reach P5 s4" "ctl s4 = ?c4" by blast
  have "\<exists>s. reach P5 s \<and> ctl s = ?c5"
    by (rule reach_next [OF mono_P5 s4, of "(1480, 1480)"])
       (simp_all add: frame_eval expire_eval P5_def)
  then obtain s5 where s5: "reach P5 s5" "ctl s5 = ?c5" by blast
  have n: "unat (animation_stack_size s5) = 9"
    using arg_cong [OF s5(2), of animation_stack_size] by (simp add: stack_state_def)
  have "sensorLoop P5 (fst (1480, 1480)) (snd (1480, 1480)) (ctl s5) = Inl (OutOfBounds 10)"
    unfolding s5(2) by (simp add: frame_eval P5_def)
  from loop_fails [OF this] n s5(1) show ?thesis by auto
qed

section \<open>The stack over several frames: proofs\<close>

text \<open>
  Instances enter the stack at the back and leave it at the front: after \<open>sensorLoop\<close>
  the stack is the old one followed by what was pushed, after the expiry loop it is a
  final part of that, and the rest of the frame leaves it alone.
\<close>

lemma pushed_since_Nil [simp]: "pushed_since P lo hi []"
  by (simp add: pushed_since_def)

lemma pushed_since_append:
  "pushed_since P lo hi (xs @ ys) \<longleftrightarrow> pushed_since P lo hi xs \<and> pushed_since P lo hi ys"
  by (auto simp: pushed_since_def)

lemma pushed_since_mono:
  "pushed_since P lo hi xs \<Longrightarrow> lo' \<le> lo \<Longrightarrow> hi \<le> hi' \<Longrightarrow> pushed_since P lo' hi' xs"
  unfolding pushed_since_def by (meson le_trans less_le_trans)

lemma live_mark [simp]:
  "live (s\<lparr>last_trigger_time_top := v\<rparr>) = live s"
  "live (s\<lparr>last_trigger_time_bottom := v\<rparr>) = live s"
  by (simp_all add: live_def)

lemma sized_mark [simp]:
  "sized (s\<lparr>last_trigger_time_top := v\<rparr>) = sized s"
  "sized (s\<lparr>last_trigger_time_bottom := v\<rparr>) = sized s"
  "sized (s\<lparr>millis_calls := k\<rparr>) = sized s"
  by (simp_all add: sized_def)

lemma live_stack_of: "stack_of x = stack_of y \<Longrightarrow> live x = live y"
  by (simp add: live_def stack_of_def)

lemma live_push:
  assumes w: "sized s" and p: "pushStack P sp s = Inr s'"
  shows "live s' = live s @ [(word_of_nat (clock P (millis_calls s)), sp)]"
    and "millis_calls s' = millis_calls s + 1"
    and "sized s'"
    and "unat (animation_stack_size s') \<le> ANIMATION_STACK_SIZE_MAX"
proof -
  let ?n = "unat (animation_stack_size s)"
  let ?x = "word_of_nat (clock P (millis_calls s)) :: 32 word"
  from p have n: "?n < ANIMATION_STACK_SIZE_MAX"
    by (auto simp: pushStack_def millis_def Let_def split: if_splits)
  from p n have s': "s' = s\<lparr>millis_calls := millis_calls s + 1,
      animation_stack_start_times := (animation_stack_start_times s)[?n := ?x],
      animation_stack_starting_point := (animation_stack_starting_point s)[?n := sp],
      animation_stack_size := animation_stack_size s + 1\<rparr>"
    by (auto simp: pushStack_def millis_def Let_def)
  have sz: "unat (animation_stack_size s + 1) = Suc ?n"
    using n by (simp add: unat_size_Suc ANIMATION_STACK_SIZE_MAX_def)
  have len: "?n < length (zip (animation_stack_start_times s) (animation_stack_starting_point s))"
    using w n by (simp add: sized_def)
  show "live s' = live s @ [(?x, sp)]"
    using len by (simp add: live_def s' sz zip_update take_Suc_conv_app_nth)
  show "millis_calls s' = millis_calls s + 1" by (simp add: s')
  show "sized s'" using w by (simp add: s' sized_def)
  show "unat (animation_stack_size s') \<le> ANIMATION_STACK_SIZE_MAX"
    using n by (simp add: s' sz)
qed

lemma live_sensorLoop:
  assumes w: "sized s" and b: "unat (animation_stack_size s) \<le> ANIMATION_STACK_SIZE_MAX"
    and l: "sensorLoop P echo_top echo_bottom s = Inr s'"
  shows "\<exists>new. live s' = live s @ new \<and>
           pushed_since P (millis_calls s) (millis_calls s') new \<and>
           millis_calls s \<le> millis_calls s' \<and> sized s' \<and>
           unat (animation_stack_size s') \<le> ANIMATION_STACK_SIZE_MAX"
proof (cases "unat (animation_stack_size s) < ANIMATION_STACK_SIZE_MAX")
  case False
  with l have "s' = s" by (auto simp: sensorLoop_def)
  then show ?thesis using w b by (intro exI [of _ "[]"]) simp
next
  case True
  define top where "top =
    (if getDistance echo_top < MAX_SONAR_DISTANCE then
       let (now, s) = millis P s in
       if now - last_trigger_time_top s > WAIT_BETWEEN_TRIGGERS then
         let (now, s) = millis P s in
         pushStack P TOP (s\<lparr>last_trigger_time_top := now\<rparr>)
       else Inr s
     else Inr s)"
  define bottom where "bottom = (\<lambda>s.
    if getDistance echo_bottom < MAX_SONAR_DISTANCE then
      let (now, s) = millis P s in
      if now - last_trigger_time_bottom s > WAIT_BETWEEN_TRIGGERS then
        let (now, s) = millis P s in
        pushStack P BOTTOM (s\<lparr>last_trigger_time_bottom := now\<rparr>)
      else Inr s
    else Inr s)"
  have l': "bind top bottom = Inr s'"
    using l True by (simp add: sensorLoop_def top_def bottom_def Let_def)
  then obtain s1 where s1: "top = Inr s1" "bottom s1 = Inr s'"
    by (auto simp: bind_def split: sum.splits)
  have blk: "\<exists>new. live y = live x @ new \<and>
           pushed_since P (millis_calls x) (millis_calls y) new \<and>
           millis_calls x \<le> millis_calls y \<and> sized y \<and>
           unat (animation_stack_size y) \<le> ANIMATION_STACK_SIZE_MAX"
    if wx: "sized x" and bx: "unat (animation_stack_size x) \<le> ANIMATION_STACK_SIZE_MAX" and
      c: "y = x \<or> y = x\<lparr>millis_calls := millis_calls x + 1\<rparr> \<or>
          (\<exists>sp v. pushStack P sp (x\<lparr>millis_calls := millis_calls x + 2,
                  last_trigger_time_top := v\<rparr>) = Inr y) \<or>
          (\<exists>sp v. pushStack P sp (x\<lparr>millis_calls := millis_calls x + 2,
                  last_trigger_time_bottom := v\<rparr>) = Inr y)"
    for x y
  proof -
    have push: "\<exists>new. live y = live x @ new \<and>
           pushed_since P (millis_calls x) (millis_calls y) new \<and>
           millis_calls x \<le> millis_calls y \<and> sized y \<and>
           unat (animation_stack_size y) \<le> ANIMATION_STACK_SIZE_MAX"
      if p: "pushStack P sp z = Inr y" and z: "live z = live x" "sized z"
        "millis_calls z = millis_calls x + 2" for sp z
    proof -
      let ?e = "(word_of_nat (clock P (millis_calls x + 2)) :: 32 word, sp)"
      have "live y = live x @ [?e]" using live_push(1) [OF z(2) p] z(1,3) by simp
      moreover have "millis_calls y = millis_calls x + 3" using live_push(2) [OF z(2) p] z(3) by simp
      moreover have "pushed_since P (millis_calls x) (millis_calls x + 3) [?e]"
        unfolding pushed_since_def by (auto intro: exI [of _ "millis_calls x + 2"])
      ultimately show ?thesis using live_push(3,4) [OF z(2) p] by auto
    qed
    from c consider "y = x" | "y = x\<lparr>millis_calls := millis_calls x + 1\<rparr>"
      | sp v where "pushStack P sp (x\<lparr>millis_calls := millis_calls x + 2,
                  last_trigger_time_top := v\<rparr>) = Inr y"
      | sp v where "pushStack P sp (x\<lparr>millis_calls := millis_calls x + 2,
                  last_trigger_time_bottom := v\<rparr>) = Inr y"
      by blast
    then show ?thesis
    proof cases
      case 1
      then show ?thesis using wx bx by (intro exI [of _ "[]"]) simp
    next
      case 2
      then show ?thesis using wx bx by (intro exI [of _ "[]"]) simp
    next
      case 3
      then show ?thesis using wx by (intro push [OF 3]) simp_all
    next
      case 4
      then show ?thesis using wx by (intro push [OF 4]) simp_all
    qed
  qed
  have "\<exists>new. live s1 = live s @ new \<and>
           pushed_since P (millis_calls s) (millis_calls s1) new \<and>
           millis_calls s \<le> millis_calls s1 \<and> sized s1 \<and>
           unat (animation_stack_size s1) \<le> ANIMATION_STACK_SIZE_MAX"
  proof (rule blk [OF w b])
    show "s1 = s \<or> s1 = s\<lparr>millis_calls := millis_calls s + 1\<rparr> \<or>
          (\<exists>sp v. pushStack P sp (s\<lparr>millis_calls := millis_calls s + 2,
                  last_trigger_time_top := v\<rparr>) = Inr s1) \<or>
          (\<exists>sp v. pushStack P sp (s\<lparr>millis_calls := millis_calls s + 2,
                  last_trigger_time_bottom := v\<rparr>) = Inr s1)"
      using s1(1) unfolding top_def millis_def Let_def split_def
      by (auto split: if_splits)
  qed
  then obtain new1 where n1: "live s1 = live s @ new1"
    "pushed_since P (millis_calls s) (millis_calls s1) new1"
    "millis_calls s \<le> millis_calls s1" "sized s1"
    "unat (animation_stack_size s1) \<le> ANIMATION_STACK_SIZE_MAX" by blast
  have "\<exists>new. live s' = live s1 @ new \<and>
           pushed_since P (millis_calls s1) (millis_calls s') new \<and>
           millis_calls s1 \<le> millis_calls s' \<and> sized s' \<and>
           unat (animation_stack_size s') \<le> ANIMATION_STACK_SIZE_MAX"
  proof (rule blk [OF n1(4,5)])
    show "s' = s1 \<or> s' = s1\<lparr>millis_calls := millis_calls s1 + 1\<rparr> \<or>
          (\<exists>sp v. pushStack P sp (s1\<lparr>millis_calls := millis_calls s1 + 2,
                  last_trigger_time_top := v\<rparr>) = Inr s') \<or>
          (\<exists>sp v. pushStack P sp (s1\<lparr>millis_calls := millis_calls s1 + 2,
                  last_trigger_time_bottom := v\<rparr>) = Inr s')"
      using s1(2) unfolding bottom_def millis_def Let_def split_def
      by (auto split: if_splits)
  qed
  then obtain new2 where n2: "live s' = live s1 @ new2"
    "pushed_since P (millis_calls s1) (millis_calls s') new2"
    "millis_calls s1 \<le> millis_calls s'" "sized s'"
    "unat (animation_stack_size s') \<le> ANIMATION_STACK_SIZE_MAX" by blast
  have "pushed_since P (millis_calls s) (millis_calls s') (new1 @ new2)"
    unfolding pushed_since_append
    using pushed_since_mono [OF n1(2) le_refl n2(3)] pushed_since_mono [OF n2(2) n1(3) le_refl]
    by simp
  then show ?thesis using n1 n2 by (intro exI [of _ "new1 @ new2"]) simp
qed

lemma live_expire:
  assumes "sized s" and "unat (animation_stack_size s) \<le> ANIMATION_STACK_SIZE_MAX"
    and "expire P s = Inr s'"
  shows "\<exists>k. live s' = drop k (live s) \<and> millis_calls s \<le> millis_calls s'"
  using assms
proof (induction "unat (animation_stack_size s)" arbitrary: s rule: less_induct)
  case less
  show ?case
  proof (cases "animation_stack_size s = 0")
    case True
    with less.prems have "s' = s" by (simp add: expire_empty)
    then show ?thesis by (intro exI [of _ 0]) simp
  next
    case nz: False
    let ?s1 = "s\<lparr>millis_calls := millis_calls s + 1\<rparr>"
    show ?thesis
    proof (cases "ANIMATION_RUNTIME <
        word_of_nat (clock P (millis_calls s)) - animation_stack_start_times s ! 0")
      case True
      then have "bind (popStack P ?s1) (expire P) = Inr s'"
        using less.prems(3) nz by (simp add: expire_pop)
      then obtain s2 where s2: "popStack P ?s1 = Inr s2" "expire P s2 = Inr s'"
        by (auto simp: bind_def split: sum.splits)
      have n1: "unat (animation_stack_size ?s1) \<le> ANIMATION_STACK_SIZE_MAX"
        using less.prems(2) by simp
      have e2: "s2 = ?s1\<lparr>animation_stack_start_times :=
                 shift (unat (animation_stack_size ?s1) - 1) (animation_stack_start_times ?s1),
             animation_stack_starting_point :=
                 shift (unat (animation_stack_size ?s1) - 1) (animation_stack_starting_point ?s1),
             animation_stack_steps :=
                 recode P (unat (animation_stack_size ?s1) - 1) (animation_stack_steps ?s1),
             animation_stack_size := animation_stack_size ?s1 - 1\<rparr>"
        using s2(1) popStack_result [OF n1, of P] by simp
      have l2: "live s2 = tl (live s)"
        using live_pop [OF _ _ _ s2(1)] less.prems(1,2) nz by simp
      have w2: "sized s2" using less.prems(1) by (simp add: e2 sized_def)
      have z2: "unat (animation_stack_size s2) = unat (animation_stack_size s) - 1"
        using nz by (simp add: e2 unat_size_pred)
      have pos: "0 < unat (animation_stack_size s)" using nz by (simp add: unat_gt_0)
      have c2: "millis_calls s2 = millis_calls s + 1" by (simp add: e2)
      have "\<exists>k. live s' = drop k (live s2) \<and> millis_calls s2 \<le> millis_calls s'"
      proof (rule less.hyps [OF _ w2 _ s2(2)])
        show "unat (animation_stack_size s2) < unat (animation_stack_size s)"
          using z2 pos by simp
        show "unat (animation_stack_size s2) \<le> ANIMATION_STACK_SIZE_MAX"
          using z2 less.prems(2) by simp
      qed
      then obtain k where "live s' = drop k (live s2)" "millis_calls s2 \<le> millis_calls s'"
        by blast
      then show ?thesis using l2 c2 by (intro exI [of _ "Suc k"]) (simp add: drop_Suc)
    next
      case False
      then have "s' = ?s1" using less.prems(3) nz by (simp add: expire_keep)
      then show ?thesis by (intro exI [of _ 0]) simp
    qed
  qed
qed

lemma drop_drop_append:
  "drop k' (drop k xs @ ys) = drop (k' + min k (length xs)) (xs @ ys)"
proof -
  have "drop k xs = drop (min k (length xs)) xs" by (simp add: min_def)
  then have "drop k xs @ ys = drop (min k (length xs)) (xs @ ys)" by simp
  then show ?thesis by simp
qed

lemma rest_of_frame:
  assumes 3: "for_each [0..<unat (animation_stack_size s2)] (animate P) s2 = Inr s3"
    and 4: "displayLeds s3 = Inr s4"
  shows "live (snd (frameLimiter P s4)) = live s2"
    and "millis_calls s2 \<le> millis_calls (snd (frameLimiter P s4))"
proof -
  have c3: "millis_calls s3 = millis_calls s2 + unat (animation_stack_size s2)"
    using animates_frame(2) [OF 3] by simp
  have f4: "stack_of s4 = stack_of s3" "millis_calls s4 = millis_calls s3"
    using displayLeds_frame(1) [OF 4]
    by (auto simp: stack_of_def dest: arg_cong [where f = animation_stack_start_times]
        arg_cong [where f = animation_stack_starting_point]
        arg_cong [where f = animation_stack_size] arg_cong [where f = last_trigger_time_top]
        arg_cong [where f = last_trigger_time_bottom] arg_cong [where f = millis_calls])
  have "live s4 = live s2"
    using live_stack_of [OF f4(1)] live_stack_of [OF animates_frame(1) [OF 3]] by simp
  then show "live (snd (frameLimiter P s4)) = live s2"
    by (simp add: frameLimiter_state live_def)
  show "millis_calls s2 \<le> millis_calls (snd (frameLimiter P s4))"
    using c3 f4(2) by (simp add: frameLimiter_state)
qed

lemma frame_live:
  assumes w: "sized s" and b: "unat (animation_stack_size s) \<le> ANIMATION_STACK_SIZE_MAX"
    and l: "loop P echo s = Inr s'"
  shows "\<exists>k new. live s' = drop k (live s @ new) \<and>
           pushed_since P (millis_calls s) (millis_calls s') new \<and>
           millis_calls s \<le> millis_calls s'"
proof -
  from l obtain s1 s2 s3 s4 where
    1: "sensorLoop P (fst echo) (snd echo) s = Inr s1" and
    2: "expire P s1 = Inr s2" and
    3: "for_each [0..<unat (animation_stack_size s2)] (animate P) s2 = Inr s3" and
    4: "displayLeds s3 = Inr s4" and
    5: "s' = snd (frameLimiter P s4)"
    by (rule loop_cases)
  from live_sensorLoop [OF w b 1] obtain new where n: "live s1 = live s @ new"
    "pushed_since P (millis_calls s) (millis_calls s1) new"
    "millis_calls s \<le> millis_calls s1" "sized s1"
    "unat (animation_stack_size s1) \<le> ANIMATION_STACK_SIZE_MAX" by blast
  from live_expire [OF n(4,5) 2] obtain k where k: "live s2 = drop k (live s1)"
    "millis_calls s1 \<le> millis_calls s2" by blast
  have r: "live s' = live s2" "millis_calls s2 \<le> millis_calls s'"
    using rest_of_frame [OF 3 4] by (simp_all add: 5)
  have "pushed_since P (millis_calls s) (millis_calls s') new"
    using pushed_since_mono [OF n(2) le_refl] k(2) r(2) by simp
  then show ?thesis using n k r by (intro exI [of _ k] exI [of _ new]) simp
qed

lemma frames_live:
  assumes m: "mono (clock P)" and r: "reach P s" and f: "frames P s s'"
  shows "reach P s' \<and>
         (\<exists>k new. live s' = drop k (live s @ new) \<and>
            pushed_since P (millis_calls s) (millis_calls s') new) \<and>
         millis_calls s \<le> millis_calls s'"
  using f
proof (induction rule: frames.induct)
  case frames_none
  show ?case using r by (auto intro: exI [of _ 0] exI [of _ "[]"])
next
  case (frames_more s' echo s'')
  then obtain k new where a: "reach P s'" "live s' = drop k (live s @ new)"
    "pushed_since P (millis_calls s) (millis_calls s') new"
    "millis_calls s \<le> millis_calls s'" by blast
  from reach_tracks [OF m a(1)] have w: "sized s'"
    "unat (animation_stack_size s') \<le> ANIMATION_STACK_SIZE_MAX"
    by (auto simp: tracks_def)
  from frame_live [OF w frames_more(2)] obtain k' new' where b:
    "live s'' = drop k' (live s' @ new')"
    "pushed_since P (millis_calls s') (millis_calls s'') new'"
    "millis_calls s' \<le> millis_calls s''" by blast
  have "live s'' = drop (k' + min k (length (live s @ new))) (live s @ new @ new')"
    using drop_drop_append [of k' k "live s @ new" new'] by (simp add: b(1) a(2))
  moreover have "pushed_since P (millis_calls s) (millis_calls s'') (new @ new')"
    unfolding pushed_since_append
    using pushed_since_mono [OF a(3) le_refl b(3)] pushed_since_mono [OF b(2) a(4) le_refl]
    by simp
  moreover have "reach P s''" by (rule reach_frame [OF a(1) frames_more(2,3)])
  ultimately show ?case using a(4) b(3) by (intro conjI exI) auto
qed

section \<open>Expiry and the order of the stack: proofs\<close>

lemma mono_P10: "mono (clock P10)"
  by (rule monoI) (simp add: P10_def)

lemma mono_P7: "mono (clock P7)"
  by (rule monoI) (simp add: P7_def)

text \<open>
  C10. In every state of \<open>reach\<close>, that is, in every state that the sketch reaches
  before any access has left an array, under a clock that does not run backwards and in
  frames of at most \<open>FRAME_SPAN\<close> ms, the live instances are ordered by age: the time
  elapsed since the start, as the sketch computes it (the clock now minus the start time,
  on 32 bits), does not increase from index 0 to index \<open>animation_stack_size - 1\<close>, so
  that the oldest instance is at index 0. The stored start times themselves are
  nondecreasing as long as the clock has not passed \<open>2^32\<close> ms.
\<close>

theorem stack_ordered_by_age:
  assumes "mono (clock P)" and "reach P s"
  shows "(\<forall>i j. i \<le> j \<and> j < unat (animation_stack_size s) \<longrightarrow>
            word_of_nat (clock P (millis_calls s)) - animation_stack_start_times s ! j
            \<le> word_of_nat (clock P (millis_calls s)) - animation_stack_start_times s ! i) \<and>
         (clock P (millis_calls s) < 2 ^ 32 \<longrightarrow>
            sorted (take (unat (animation_stack_size s)) (animation_stack_start_times s)))"
proof -
  from reach_tracks [OF assms] obtain rs where t: "tracks P (millis_calls s) s rs" by blast
  let ?T = "clock P (millis_calls s)"
  let ?n = "unat (animation_stack_size s)"
  have len: "length rs = ?n" "?n \<le> length (animation_stack_start_times s)"
    using t by (simp_all add: tracks_def sized_def)
  have st: "animation_stack_start_times s ! i = word_of_nat (rs ! i)" if "i < ?n" for i
    using t that by (simp add: tracks_def)
  have le: "rs ! i \<le> ?T" and near: "?T - rs ! i < 2 ^ 32" if "i < ?n" for i
  proof -
    have x: "rs ! i \<in> set rs" using that len by simp
    then show "rs ! i \<le> ?T" using t by (simp add: tracks_def)
    have "?T \<le> rs ! i + 34000 + FRAME_SPAN" using t x by (simp add: tracks_def)
    then show "?T - rs ! i < 2 ^ 32" by (simp add: FRAME_SPAN_def)
  qed
  have age: "unat (word_of_nat ?T - animation_stack_start_times s ! i) = ?T - rs ! i"
    if "i < ?n" for i
    using elapsed_real [OF le [OF that] near [OF that]] st [OF that] by simp
  have 1: "word_of_nat ?T - animation_stack_start_times s ! j
        \<le> word_of_nat ?T - animation_stack_start_times s ! i" if "i \<le> j" "j < ?n" for i j
  proof -
    have "rs ! i \<le> rs ! j"
      using t that len by (simp add: tracks_def sorted_nth_mono)
    then show ?thesis using that by (simp add: word_le_nat_alt age)
  qed
  have 2: "sorted (take ?n (animation_stack_start_times s))" if "?T < 2 ^ 32"
  proof -
    have u: "unat (animation_stack_start_times s ! i) = rs ! i" if "i < ?n" for i
      using le [OF that] \<open>?T < 2 ^ 32\<close> by (simp add: st [OF that] unat_of_nat)
    show ?thesis
      unfolding sorted_iff_nth_mono
    proof (intro allI impI)
      fix i j assume ij: "i \<le> j" "j < length (take ?n (animation_stack_start_times s))"
      then have j: "j < ?n" "i < ?n" using len by simp_all
      have "rs ! i \<le> rs ! j"
        using t ij(1) j len by (simp add: tracks_def sorted_nth_mono)
      then show "take ?n (animation_stack_start_times s) ! i
          \<le> take ?n (animation_stack_start_times s) ! j"
        using j by (simp add: word_le_nat_alt u)
    qed
  qed
  show ?thesis using 1 2 by blast
qed

text \<open>
  C7. One pass of \<open>animationLoop\<close>, in a frame begun at a state \<open>s\<close> of \<open>reach\<close>, that
  is, before any access has left an array, under a clock that does not run backwards and
  in frames of at most \<open>FRAME_SPAN\<close> ms; \<open>s1\<close> is the state that \<open>sensorLoop\<close> has left
  and \<open>s2\<close> the one in which the expiry loop ends.
  \<^item> No live instance of \<open>s2\<close> has run for more than \<open>ANIMATION_RUNTIME\<close> at the last
    reading of the clock that the expiry loop made.
  \<^item> The live instances of \<open>s2\<close> are those of \<open>s1\<close> without the first \<open>k\<close>.
  \<^item> \<open>animate\<close> is called on the instances of \<open>s2\<close> and on no other.
  \<^item> In every later frame the instances that \<open>animate\<close> is called on are a final part
    of the list made of the instances of \<open>s2\<close> followed by instances pushed since: one
    that the expiry loop has removed is not evaluated again.

  The runtime is tested once per pass, before the instances are evaluated; an instance
  that passes it later in the frame is the subject of the statement after this one.
\<close>

theorem expired_instances_removed:
  assumes m: "mono (clock P)" and r: "reach P s"
    and 1: "sensorLoop P echo_top echo_bottom s = Inr s1"
    and 2: "expire P s1 = Inr s2"
    and span: "clock P (millis_calls s2) \<le> clock P (millis_calls s) + FRAME_SPAN"
  shows "(\<forall>i<unat (animation_stack_size s2).
            word_of_nat (clock P (millis_calls s2 - 1)) - animation_stack_start_times s2 ! i
            \<le> ANIMATION_RUNTIME) \<and>
         (\<exists>k. live s2 = drop k (live s1)) \<and>
         animationLoop P s1 = for_each [0..<unat (animation_stack_size s2)] (animate P) s2 \<and>
         (\<forall>s3 s' echo_top' echo_bottom' s1' s2'.
            loop P (echo_top, echo_bottom) s = Inr s3 \<and>
            clock P (millis_calls s3) \<le> clock P (millis_calls s) + FRAME_SPAN \<and>
            frames P s3 s' \<and>
            sensorLoop P echo_top' echo_bottom' s' = Inr s1' \<and> expire P s1' = Inr s2' \<longrightarrow>
            (\<exists>k new. live s2' = drop k (live s2 @ new) \<and>
               pushed_since P (millis_calls s2) (millis_calls s1') new) \<and>
            animationLoop P s1' =
              for_each [0..<unat (animation_stack_size s2')] (animate P) s2')"
proof -
  from reach_tracks [OF m r] obtain rs where t: "tracks P (millis_calls s) s rs" by blast
  from tracks_sensorLoop [OF m t 1] obtain new where
    t1: "tracks P (millis_calls s) s1 (rs @ new)" by blast
  from tracks_expire [OF m t1 2 span] obtain k where
    t2: "tracks P (millis_calls s) s2 (drop k (rs @ new))" and
    l: "live s2 = drop k (live s1)" and
    age: "drop k (rs @ new) \<noteq> [] \<longrightarrow> millis_calls s1 < millis_calls s2 \<and>
           (\<forall>x\<in>set (drop k (rs @ new)). clock P (millis_calls s2 - 1) \<le> x + 34000)"
    by blast
  define rs2 where "rs2 = drop k (rs @ new)"
  let ?T = "clock P (millis_calls s2 - 1)"
  have sub: "set rs2 \<subseteq> set (rs @ new)" unfolding rs2_def by (rule set_drop_subset)
  note t2 = t2 [folded rs2_def] and age = age [folded rs2_def]
  have a: "word_of_nat ?T - animation_stack_start_times s2 ! i \<le> ANIMATION_RUNTIME"
    if i: "i < unat (animation_stack_size s2)" for i
  proof -
    have len: "length rs2 = unat (animation_stack_size s2)" using t2 by (simp add: tracks_def)
    then have x: "rs2 ! i \<in> set rs2" and ne: "rs2 \<noteq> []" using i by auto
    from age ne x have a: "millis_calls s1 < millis_calls s2" "?T \<le> rs2 ! i + 34000" by auto
    have "rs2 ! i \<in> set (rs @ new)" using x sub by blast
    then have "rs2 ! i \<le> clock P (millis_calls s1)" using t1 by (simp add: tracks_def)
    also have "\<dots> \<le> ?T" using m a(1) by (simp add: monoD)
    finally have le: "rs2 ! i \<le> ?T" .
    have "?T - rs2 ! i < 2 ^ 32" using a(2) by simp
    from elapsed_real [OF le this]
    have "unat (word_of_nat ?T - (word_of_nat (rs2 ! i) :: 32 word)) \<le> 34000" using a(2) by simp
    moreover have "animation_stack_start_times s2 ! i = word_of_nat (rs2 ! i)"
      using t2 i len by (simp add: tracks_def)
    ultimately show ?thesis by (simp add: word_le_nat_alt ANIMATION_RUNTIME_def)
  qed
  have c: "animationLoop P x = for_each [0..<unat (animation_stack_size y)] (animate P) y"
    if "expire P x = Inr y" for x y
    using that by (simp add: animationLoop_def bind_def)
  have d: "(\<exists>k new. live s2' = drop k (live s2 @ new) \<and>
               pushed_since P (millis_calls s2) (millis_calls s1') new) \<and>
            animationLoop P s1' =
              for_each [0..<unat (animation_stack_size s2')] (animate P) s2'"
    if l3: "loop P (echo_top, echo_bottom) s = Inr s3"
      and sp3: "clock P (millis_calls s3) \<le> clock P (millis_calls s) + FRAME_SPAN"
      and f: "frames P s3 s'"
      and q1: "sensorLoop P echo_top' echo_bottom' s' = Inr s1'"
      and q2: "expire P s1' = Inr s2'"
    for s3 s' echo_top' echo_bottom' s1' s2'
  proof -
    from l3 obtain u1 u2 u3 u4 where
      u: "sensorLoop P echo_top echo_bottom s = Inr u1" "expire P u1 = Inr u2"
        "for_each [0..<unat (animation_stack_size u2)] (animate P) u2 = Inr u3"
        "displayLeds u3 = Inr u4" "s3 = snd (frameLimiter P u4)"
      by (rule loop_cases) simp
    have e: "u1 = s1" "u2 = s2" using u(1,2) 1 2 by simp_all
    have r3: "live s3 = live s2" "millis_calls s2 \<le> millis_calls s3"
      using rest_of_frame [OF u(3,4)] by (simp_all add: u(5) e)
    have reach3: "reach P s3" by (rule reach_frame [OF r l3 sp3])
    from frames_live [OF m reach3 f] obtain k new where
      g: "reach P s'" "live s' = drop k (live s3 @ new)"
        "pushed_since P (millis_calls s3) (millis_calls s') new"
        "millis_calls s3 \<le> millis_calls s'" by blast
    from reach_tracks [OF m g(1)] have w: "sized s'"
      "unat (animation_stack_size s') \<le> ANIMATION_STACK_SIZE_MAX"
      by (auto simp: tracks_def)
    from live_sensorLoop [OF w q1] obtain new' where n: "live s1' = live s' @ new'"
      "pushed_since P (millis_calls s') (millis_calls s1') new'"
      "millis_calls s' \<le> millis_calls s1'" "sized s1'"
      "unat (animation_stack_size s1') \<le> ANIMATION_STACK_SIZE_MAX" by blast
    from live_expire [OF n(4,5) q2] obtain k' where k': "live s2' = drop k' (live s1')" by blast
    have "live s2' = drop (k' + min k (length (live s2 @ new))) (live s2 @ new @ new')"
      using drop_drop_append [of k' k "live s2 @ new" new'] by (simp add: k' n(1) g(2) r3(1))
    moreover have "pushed_since P (millis_calls s2) (millis_calls s1') (new @ new')"
      unfolding pushed_since_append
      using pushed_since_mono [OF g(3) r3(2) n(3)]
        pushed_since_mono [OF n(2) _ le_refl, of "millis_calls s2"] r3(2) g(4)
      by simp
    ultimately show ?thesis using c [OF q2] by blast
  qed
  show ?thesis using a l c [OF 2] d by blast
qed

text \<open>
  The runtime can be passed between the test and the evaluation. In the run \<open>P7\<close> an
  instance is pushed at 3100 ms. In the next frame the expiry loop reads the clock at
  37100 ms and finds 34000 ms, which does not exceed the runtime: the instance stays.
  \<open>animate\<close> reads the clock again, one millisecond later, and evaluates the instance at
  34001 ms; when the pass is over the instance is live and has run for more than the
  runtime.
\<close>

theorem evaluated_past_runtime_counterexample:
  "mono (clock P7) \<and>
   (\<exists>s s2 s3. reach P7 s \<and> sensorLoop P7 0 0 s = Inr s \<and> expire P7 s = Inr s2 \<and>
      animationLoop P7 s = Inr s3 \<and>
      unat (animation_stack_size s2) = 1 \<and> unat (animation_stack_size s3) = 1 \<and>
      animation_stack_start_times s3 ! 0 = 3100 \<and>
      fst (millis P7 s2) - animation_stack_start_times s2 ! 0 = 34001 \<and>
      word_of_nat (clock P7 (millis_calls s3)) - animation_stack_start_times s3 ! 0 = 34001 \<and>
      \<not> (34001 :: 32 word) \<le> ANIMATION_RUNTIME)"
proof -
  let ?c = "stack_state [3100, 0, 0, 0, 0, 0, 0, 0, 0, 0]
     [True, False, False, False, False, False, False, False, False, False] 1 0 3100 7"
  have "\<exists>s. reach P7 s \<and> ctl s = ?c"
    by (rule reach_next [OF mono_P7 reach_boot ctl_boot, of "(0, 1480)"])
       (simp_all add: frame_eval expire_eval P7_def)
  then obtain s where s: "reach P7 s" "ctl s = ?c" by blast
  have f: "animation_stack_size s = 1"
    "animation_stack_start_times s = [3100, 0, 0, 0, 0, 0, 0, 0, 0, 0]"
    "animation_stack_starting_point s =
       [True, False, False, False, False, False, False, False, False, False]"
    "millis_calls s = 7"
    using arg_cong [OF s(2), of animation_stack_size]
      arg_cong [OF s(2), of animation_stack_start_times]
      arg_cong [OF s(2), of animation_stack_starting_point]
      arg_cong [OF s(2), of millis_calls]
    by (simp_all add: stack_state_def)
  have 1: "sensorLoop P7 0 0 s = Inr s"
    by (simp add: sensorLoop_def getDistance_far MAX_SONAR_DISTANCE_def bind_def)
  let ?s2 = "s\<lparr>millis_calls := millis_calls s + 1\<rparr>"
  have 2: "expire P7 s = Inr ?s2"
    by (rule expire_keep) (simp_all add: f P7_def ANIMATION_RUNTIME_def)
  from animates_succeed [of 1 ?s2 P7] obtain s3 where
    3: "for_each [0..<1] (animate P7) ?s2 = Inr s3" by auto
  have g: "stack_of s3 = stack_of ?s2" "millis_calls s3 = millis_calls ?s2 + 1"
    using animates_frame(1,2) [OF 3] by simp_all
  have f3: "animation_stack_size s3 = 1"
    "animation_stack_start_times s3 = [3100, 0, 0, 0, 0, 0, 0, 0, 0, 0]"
    "millis_calls s3 = 9"
    using g by (simp_all add: stack_of_def f)
  have a: "animationLoop P7 s = Inr s3"
    using 3 by (simp add: animationLoop_def bind_def 2 f)
  have d: "fst (millis P7 ?s2) - animation_stack_start_times ?s2 ! 0 = 34001"
    by (simp add: millis_def f P7_def)
  have e: "word_of_nat (clock P7 (millis_calls s3)) - animation_stack_start_times s3 ! 0 = 34001"
    by (simp add: f3 P7_def)
  have n: "\<not> (34001 :: 32 word) \<le> ANIMATION_RUNTIME"
    by (simp add: ANIMATION_RUNTIME_def)
  have "reach P7 s \<and> sensorLoop P7 0 0 s = Inr s \<and> expire P7 s = Inr ?s2 \<and>
      animationLoop P7 s = Inr s3 \<and>
      unat (animation_stack_size ?s2) = 1 \<and> unat (animation_stack_size s3) = 1 \<and>
      animation_stack_start_times s3 ! 0 = 3100 \<and>
      fst (millis P7 ?s2) - animation_stack_start_times ?s2 ! 0 = 34001 \<and>
      word_of_nat (clock P7 (millis_calls s3)) - animation_stack_start_times s3 ! 0 = 34001 \<and>
      \<not> (34001 :: 32 word) \<le> ANIMATION_RUNTIME"
    using s(1) 1 2 a d e n by (simp add: f f3)
  then show ?thesis using mono_P7 by blast
qed

text \<open>The run across the wrap of the millisecond counter.\<close>

lemma reach_wrapped:
  "\<exists>s. reach P10 s \<and>
       ctl s = stack_state [4294966296, 3500, 0, 0, 0, 0, 0, 0, 0, 0]
         [False, True, False, False, False, False, False, False, False, False]
         2 4294966296 3500 23"
proof -
  let ?z = "[0, 0, 0, 0, 0, 0, 0, 0, 0, 0] :: 32 word list"
  have "\<exists>s. reach P10 s \<and> ctl s = stack_state ?z none10 0 0 0 2"
    by (rule reach_next [OF mono_P10 reach_boot ctl_boot, of "(0, 0)"])
       (simp_all add: frame_eval expire_eval P10_def)
  then obtain s1 where s1: "reach P10 s1" "ctl s1 = stack_state ?z none10 0 0 0 2" by blast
  have "\<exists>s. reach P10 s \<and> ctl s = stack_state ?z none10 0 0 0 4"
    by (rule reach_next [OF mono_P10 s1, of "(0, 0)"])
       (simp_all add: frame_eval expire_eval P10_def)
  then obtain s2 where s2: "reach P10 s2" "ctl s2 = stack_state ?z none10 0 0 0 4" by blast
  have "\<exists>s. reach P10 s \<and> ctl s = stack_state ?z none10 0 0 0 6"
    by (rule reach_next [OF mono_P10 s2, of "(0, 0)"])
       (simp_all add: frame_eval expire_eval P10_def)
  then obtain s3 where s3: "reach P10 s3" "ctl s3 = stack_state ?z none10 0 0 0 6" by blast
  have "\<exists>s. reach P10 s \<and> ctl s = stack_state ?z none10 0 0 0 8"
    by (rule reach_next [OF mono_P10 s3, of "(0, 0)"])
       (simp_all add: frame_eval expire_eval P10_def)
  then obtain s4 where s4: "reach P10 s4" "ctl s4 = stack_state ?z none10 0 0 0 8" by blast
  have "\<exists>s. reach P10 s \<and>
       ctl s = stack_state [4294966296, 0, 0, 0, 0, 0, 0, 0, 0, 0] none10 1 4294966296 0 15"
    by (rule reach_next [OF mono_P10 s4, of "(1480, 0)"])
       (simp_all add: frame_eval expire_eval P10_def)
  then obtain s5 where s5: "reach P10 s5"
    "ctl s5 = stack_state [4294966296, 0, 0, 0, 0, 0, 0, 0, 0, 0] none10 1 4294966296 0 15"
    by blast
  show ?thesis
    by (rule reach_next [OF mono_P10 s5, of "(0, 1480)"])
       (simp_all add: frame_eval expire_eval P10_def)
qed

text \<open>
  The stored start times are not nondecreasing in every reachable state. In the run
  \<open>P10\<close> an instance is pushed 1000 ms before the clock passes \<open>2^32\<close> ms and a second
  one 3500 ms after: \<open>millis()\<close> has started again from 0 in between, and the stack holds
  the start times 4294966296 and 3500, in this order.
\<close>

theorem start_times_wrap_counterexample:
  "mono (clock P10) \<and>
   (\<exists>s. reach P10 s \<and> animation_stack_size s = 2 \<and>
        animation_stack_start_times s ! 0 = 4294966296 \<and>
        animation_stack_start_times s ! 1 = 3500 \<and>
        \<not> animation_stack_start_times s ! 0 \<le> animation_stack_start_times s ! 1 \<and>
        \<not> sorted (take (unat (animation_stack_size s)) (animation_stack_start_times s)))"
proof -
  from reach_wrapped obtain s where s: "reach P10 s"
    "ctl s = stack_state [4294966296, 3500, 0, 0, 0, 0, 0, 0, 0, 0]
         [False, True, False, False, False, False, False, False, False, False]
         2 4294966296 3500 23" by blast
  have f: "animation_stack_size s = 2"
    "animation_stack_start_times s = [4294966296, 3500, 0, 0, 0, 0, 0, 0, 0, 0]"
    using arg_cong [OF s(2), of animation_stack_size]
      arg_cong [OF s(2), of animation_stack_start_times]
    by (simp_all add: stack_state_def)
  have "\<not> sorted (take (unat (animation_stack_size s)) (animation_stack_start_times s))"
    by (simp add: f)
  then show ?thesis using s(1) f mono_P10 by auto
qed

text \<open>
  The theorem in that state, at a clock reading of 33100: the instance at index 1 has run
  for 29600 ms, the one at index 0 for 34100 ms.
\<close>

theorem stack_ordered_by_age_witness:
  "\<exists>s. reach P10 s \<and> unat (animation_stack_size s) = 2 \<and>
       animation_stack_start_times s ! 0 = 4294966296 \<and>
       animation_stack_start_times s ! 1 = 3500 \<and>
       word_of_nat (clock P10 (millis_calls s)) = (33100 :: 32 word) \<and>
       (33100 :: 32 word) - animation_stack_start_times s ! 1
         \<le> 33100 - animation_stack_start_times s ! 0"
proof -
  from reach_wrapped obtain s where s: "reach P10 s"
    "ctl s = stack_state [4294966296, 3500, 0, 0, 0, 0, 0, 0, 0, 0]
         [False, True, False, False, False, False, False, False, False, False]
         2 4294966296 3500 23" by blast
  have f: "animation_stack_size s = 2"
    "animation_stack_start_times s = [4294966296, 3500, 0, 0, 0, 0, 0, 0, 0, 0]"
    "millis_calls s = 23"
    using arg_cong [OF s(2), of animation_stack_size]
      arg_cong [OF s(2), of animation_stack_start_times]
      arg_cong [OF s(2), of millis_calls]
    by (simp_all add: stack_state_def)
  have now: "word_of_nat (clock P10 (millis_calls s)) = (33100 :: 32 word)"
    by (simp add: f P10_def)
  from stack_ordered_by_age [OF mono_P10 s(1), THEN conjunct1, rule_format, of 0 1]
  have "word_of_nat (clock P10 (millis_calls s)) - animation_stack_start_times s ! 1
      \<le> word_of_nat (clock P10 (millis_calls s)) - animation_stack_start_times s ! 0"
    by (simp add: f)
  then show ?thesis using s(1) f now by auto
qed

text \<open>
  The theorem in the frame that follows: the expiry loop removes the instance at the front,
  which has run for 34100 ms, and leaves the one that has run for 29600 ms; in the frame
  after that one, \<open>animate\<close> is called on this instance alone.
\<close>

theorem expired_instances_removed_witness:
  "\<exists>s s1 s2 s3 t2. reach P10 s \<and> sensorLoop P10 0 0 s = Inr s1 \<and> expire P10 s1 = Inr s2 \<and>
       unat (animation_stack_size s1) = 2 \<and> unat (animation_stack_size s2) = 1 \<and>
       animation_stack_start_times s1 ! 0 = 4294966296 \<and>
       animation_stack_start_times s2 ! 0 = 3500 \<and>
       word_of_nat (clock P10 (millis_calls s2 - 1)) = (33100 :: 32 word) \<and>
       (33100 :: 32 word) - animation_stack_start_times s2 ! 0 \<le> ANIMATION_RUNTIME \<and>
       live s2 = drop 1 (live s1) \<and>
       loop P10 (0, 0) s = Inr s3 \<and> frames P10 s3 s3 \<and>
       sensorLoop P10 0 0 s3 = Inr s3 \<and> expire P10 s3 = Inr t2 \<and>
       live s2 = [(3500, True)] \<and> live t2 = [(3500, True)] \<and>
       (\<exists>k new. live t2 = drop k (live s2 @ new) \<and>
          pushed_since P10 (millis_calls s2) (millis_calls s3) new)"
proof -
  let ?c = "stack_state [4294966296, 3500, 0, 0, 0, 0, 0, 0, 0, 0]
         [False, True, False, False, False, False, False, False, False, False]
         2 4294966296 3500 23"
  let ?c2 = "stack_state [3500, 3500, 0, 0, 0, 0, 0, 0, 0, 0]
         [True, True, False, False, False, False, False, False, False, False]
         1 4294966296 3500 25"
  let ?c3 = "stack_state [3500, 3500, 0, 0, 0, 0, 0, 0, 0, 0]
         [True, True, False, False, False, False, False, False, False, False]
         1 4294966296 3500 28"
  from reach_wrapped obtain s where s: "reach P10 s" "ctl s = ?c" by blast
  have "map_sum id ctl (sensorLoop P10 0 0 s) = Inr ?c"
    unfolding sensorLoop_ctl [symmetric] s(2) by (simp add: frame_eval P10_def)
  then obtain s1 where s1: "sensorLoop P10 0 0 s = Inr s1" "ctl s1 = ?c"
    by (auto dest: map_sum_Inr_D)
  have f1: "animation_stack_size s1 = 2"
    "animation_stack_start_times s1 = [4294966296, 3500, 0, 0, 0, 0, 0, 0, 0, 0]"
    "animation_stack_starting_point s1 =
       [False, True, False, False, False, False, False, False, False, False]"
    using arg_cong [OF s1(2), of animation_stack_size]
      arg_cong [OF s1(2), of animation_stack_start_times]
      arg_cong [OF s1(2), of animation_stack_starting_point]
    by (simp_all add: stack_state_def)
  have n1: "unat (animation_stack_size s1) \<le> ANIMATION_STACK_SIZE_MAX"
    by (simp add: f1 ANIMATION_STACK_SIZE_MAX_def)
  have "map_sum id ctl (expire P10 s1) = Inr ?c2"
    unfolding expire_ctl [OF n1, symmetric] s1(2)
    by (simp add: frame_eval expire_eval P10_def popStack_result shift_def recode_def
        upt_rec [of 0 1])
  then obtain s2 where s2: "expire P10 s1 = Inr s2" "ctl s2 = ?c2"
    by (auto dest: map_sum_Inr_D)
  have f2: "animation_stack_size s2 = 1"
    "animation_stack_start_times s2 = [3500, 3500, 0, 0, 0, 0, 0, 0, 0, 0]"
    "animation_stack_starting_point s2 =
       [True, True, False, False, False, False, False, False, False, False]"
    "millis_calls s2 = 25"
    using arg_cong [OF s2(2), of animation_stack_size]
      arg_cong [OF s2(2), of animation_stack_start_times]
      arg_cong [OF s2(2), of animation_stack_starting_point]
      arg_cong [OF s2(2), of millis_calls]
    by (simp_all add: stack_state_def)
  have c: "millis_calls s = 23"
    using arg_cong [OF s(2), of millis_calls] by (simp add: stack_state_def)
  have span: "clock P10 (millis_calls s2) \<le> clock P10 (millis_calls s) + FRAME_SPAN"
    by (simp add: f2 c P10_def FRAME_SPAN_def)
  have now: "word_of_nat (clock P10 (millis_calls s2 - 1)) = (33100 :: 32 word)"
    by (simp add: f2 P10_def)
  have k3: "skeleton P10 (0, 0) (ctl s) = Inr ?c3"
    unfolding s(2)
    by (simp add: frame_eval expire_eval P10_def popStack_result shift_def recode_def
        upt_rec [of 0 1])
  have "clock P10 (millis_calls ?c3) \<le> clock P10 (millis_calls s) + FRAME_SPAN"
    by (simp add: c stack_state_def P10_def FRAME_SPAN_def)
  from reach_step [OF mono_P10 s(1) k3 this]
  obtain s3 where s3: "loop P10 (0, 0) s = Inr s3" "reach P10 s3" "ctl s3 = ?c3" by blast
  have f3: "animation_stack_size s3 = 1"
    "animation_stack_start_times s3 = [3500, 3500, 0, 0, 0, 0, 0, 0, 0, 0]"
    "animation_stack_starting_point s3 =
       [True, True, False, False, False, False, False, False, False, False]"
    "millis_calls s3 = 28"
    using arg_cong [OF s3(3), of animation_stack_size]
      arg_cong [OF s3(3), of animation_stack_start_times]
      arg_cong [OF s3(3), of animation_stack_starting_point]
      arg_cong [OF s3(3), of millis_calls]
    by (simp_all add: stack_state_def)
  have sp3: "clock P10 (millis_calls s3) \<le> clock P10 (millis_calls s) + FRAME_SPAN"
    by (simp add: f3 c P10_def FRAME_SPAN_def)
  have q1: "sensorLoop P10 0 0 s3 = Inr s3"
    by (simp add: sensorLoop_def getDistance_far MAX_SONAR_DISTANCE_def bind_def)
  let ?t2 = "s3\<lparr>millis_calls := millis_calls s3 + 1\<rparr>"
  have q2: "expire P10 s3 = Inr ?t2"
    by (rule expire_keep) (simp_all add: f3 P10_def ANIMATION_RUNTIME_def)
  note inst = expired_instances_removed [OF mono_P10 s(1) s1(1) s2(1) span]
  from inst [THEN conjunct1, rule_format, of 0]
  have a: "word_of_nat (clock P10 (millis_calls s2 - 1)) - animation_stack_start_times s2 ! 0
      \<le> ANIMATION_RUNTIME"
    by (simp add: f2)
  from inst [THEN conjunct2, THEN conjunct2, THEN conjunct2, rule_format, of s3 s3 0 0 s3 ?t2]
    s3(1) sp3 frames_none [of P10 s3] q1 q2
  have d: "\<exists>k new. live ?t2 = drop k (live s2 @ new) \<and>
      pushed_since P10 (millis_calls s2) (millis_calls s3) new"
    by blast
  have l: "live s2 = drop 1 (live s1)" "live s2 = [(3500, True)]" "live ?t2 = [(3500, True)]"
    by (simp_all add: live_def f1 f2 f3)
  have "reach P10 s \<and> sensorLoop P10 0 0 s = Inr s1 \<and> expire P10 s1 = Inr s2 \<and>
       unat (animation_stack_size s1) = 2 \<and> unat (animation_stack_size s2) = 1 \<and>
       animation_stack_start_times s1 ! 0 = 4294966296 \<and>
       animation_stack_start_times s2 ! 0 = 3500 \<and>
       word_of_nat (clock P10 (millis_calls s2 - 1)) = (33100 :: 32 word) \<and>
       (33100 :: 32 word) - animation_stack_start_times s2 ! 0 \<le> ANIMATION_RUNTIME \<and>
       live s2 = drop 1 (live s1) \<and>
       loop P10 (0, 0) s = Inr s3 \<and> frames P10 s3 s3 \<and>
       sensorLoop P10 0 0 s3 = Inr s3 \<and> expire P10 s3 = Inr ?t2 \<and>
       live s2 = [(3500, True)] \<and> live ?t2 = [(3500, True)] \<and>
       (\<exists>k new. live ?t2 = drop k (live s2 @ new) \<and>
          pushed_since P10 (millis_calls s2) (millis_calls s3) new)"
    using s(1) s1(1) s2(1) s3(1) q1 q2 a d l now frames_none [of P10 s3]
    by (simp add: f1 f2)
  then show ?thesis by blast
qed

end
